theory Spec2Isabelle
  imports Complex_Main "HOL-Library.Log_Nat" "HOL-Library.Multiset"
begin

section \<open>Python values used by the command-line front end\<close>

text \<open>
  The front end \<^verbatim>\<open>fastq_cli_click.py\<close> handles three kinds of values: strings,
  integers (unbounded) and floats (IEEE 754 binary64).  A finite float is represented by
  the rational number it denotes; signed zeros are not distinguished.
\<close>

datatype pyfloat = Finite rat | PosInf | NegInf | NaN

text \<open>Exceptions: \<^verbatim>\<open>FileNotFoundError\<close> and any other \<^verbatim>\<open>Exception\<close> with its message.\<close>

datatype exn = FileNotFoundError | Exception string

subsection \<open>Rounding to binary64\<close>

text \<open>\<open>rhe n d\<close> is the integer nearest to \<open>n / d\<close> (\<open>d > 0\<close>), ties going to the even one.\<close>

definition rhe :: "int \<Rightarrow> int \<Rightarrow> int" where
  "rhe n d =
     (let q = n div d; r = n mod d
      in if 2 * r < d then q else if d < 2 * r then q + 1 else if even q then q else q + 1)"

text \<open>\<open>ilog2 p q\<close> is \<open>\<lfloor>log\<^sub>2 (p / q)\<rfloor>\<close> for positive \<open>p\<close> and \<open>q\<close>.\<close>

definition ilog2 :: "int \<Rightarrow> int \<Rightarrow> int" where
  "ilog2 p q =
     (let k = bitlen p - bitlen q
      in if (if 0 \<le> k then q * 2 ^ nat k \<le> p else q \<le> p * 2 ^ nat (- k)) then k else k - 1)"

text \<open>
  \<open>round_frac p q\<close> rounds the positive fraction \<open>p / q\<close> to the nearest binary64 value
  (53 significant bits, exponents from \<open>-1022\<close>, gradual underflow below); the result is
  \<open>None\<close> when the rounded magnitude does not fit (it is \<open>2\<^sup>1\<^sup>0\<^sup>2\<^sup>4\<close> or more).
\<close>

definition round_frac :: "int \<Rightarrow> int \<Rightarrow> rat option" where
  "round_frac p q =
     (let s = max (ilog2 p q) (- 1022) - 52;
          y = (if 0 \<le> s then of_int (rhe p (q * 2 ^ nat s)) * 2 ^ nat s
               else of_int (rhe (p * 2 ^ nat (- s)) q) / 2 ^ nat (- s))
      in if 2 ^ 1024 \<le> y then None else Some y)"

definition round_binary64 :: "rat \<Rightarrow> pyfloat" where
  "round_binary64 x =
     (if x = 0 then Finite 0
      else case quotient_of \<bar>x\<bar> of (p, q) \<Rightarrow>
        (case round_frac p q of
           None \<Rightarrow> if 0 < x then PosInf else NegInf
         | Some y \<Rightarrow> Finite (if 0 < x then y else - y)))"

text \<open>
  \<^verbatim>\<open>count * avg_len\<close> with an integer on the left and a float on the right: the integer is
  converted to a float first (\<^verbatim>\<open>OverflowError\<close> when it is too large), then the product
  is rounded once.
\<close>

definition int_to_float :: "int \<Rightarrow> exn + pyfloat" where
  "int_to_float n =
     (case round_binary64 (of_int n) of
        Finite x \<Rightarrow> Inr (Finite x)
      | _ \<Rightarrow> Inl (Exception ''int too large to convert to float''))"

fun float_mul :: "pyfloat \<Rightarrow> pyfloat \<Rightarrow> pyfloat" where
  "float_mul NaN _ = NaN"
| "float_mul _ NaN = NaN"
| "float_mul (Finite x) (Finite y) = round_binary64 (x * y)"
| "float_mul (Finite x) PosInf = (if x = 0 then NaN else if 0 < x then PosInf else NegInf)"
| "float_mul (Finite x) NegInf = (if x = 0 then NaN else if 0 < x then NegInf else PosInf)"
| "float_mul PosInf (Finite y) = (if y = 0 then NaN else if 0 < y then PosInf else NegInf)"
| "float_mul NegInf (Finite y) = (if y = 0 then NaN else if 0 < y then NegInf else PosInf)"
| "float_mul PosInf PosInf = PosInf"
| "float_mul PosInf NegInf = NegInf"
| "float_mul NegInf PosInf = NegInf"
| "float_mul NegInf NegInf = PosInf"

definition int_mul_float :: "int \<Rightarrow> pyfloat \<Rightarrow> exn + pyfloat" where
  "int_mul_float n x =
     (case int_to_float n of Inl e \<Rightarrow> Inl e | Inr nf \<Rightarrow> Inr (float_mul nf x))"

text \<open>
  \<^verbatim>\<open>round(x, 2)\<close> on a float: the exact value is rounded to two decimals (ties to even)
  and the decimal is converted back to the nearest float.
\<close>

fun round2 :: "pyfloat \<Rightarrow> pyfloat" where
  "round2 (Finite x) =
     (case quotient_of x of (p, q) \<Rightarrow> round_binary64 (of_int (rhe (p * 100) q) / 100))"
| "round2 f = f"

text \<open>
  The format \<^verbatim>\<open>,.0f\<close> prints a finite float as the integer nearest to its exact value,
  ties going to the even one (with commas between groups of three digits): \<open>shown_0f\<close> is
  that integer.
\<close>

definition shown_0f :: "rat \<Rightarrow> int" where
  "shown_0f x = (case quotient_of x of (p, q) \<Rightarrow> rhe p q)"

section \<open>The command-line front end\<close>

subsection \<open>What a run does: its trace\<close>

text \<open>
  A printed line is kept as the pieces of its f-string: literal text and the numbers with
  the format each is printed in.
\<close>

datatype piece =
    Lit string
  | IntComma int            \<comment> \<open>\<^verbatim>\<open>{count:,}\<close>\<close>
  | IntPlain int            \<comment> \<open>\<^verbatim>\<open>{count}\<close>\<close>
  | Float2f pyfloat         \<comment> \<open>\<^verbatim>\<open>{avg_len:.2f}\<close>\<close>
  | FloatComma0f pyfloat  \<comment> \<open>\<^verbatim>\<open>{total_bp:,.0f}\<close>\<close>

datatype jvalue = JStr string | JInt int | JFloat pyfloat

datatype event =
    Print "piece list"
  | PrintJson "(string \<times> jvalue) list"          \<comment> \<open>\<^verbatim>\<open>print(json.dumps(result, indent=2))\<close>\<close>
  | PrintHelp                                      \<comment> \<open>\<^verbatim>\<open>parser.print_help()\<close>\<close>
  | Open_FastqReader string                        \<comment> \<open>\<^verbatim>\<open>FastqReader(fastq_file)\<close>\<close>
  | Call_plot_per_base_quality string
  | Call_plot_sequence_length_distribution string
  | Call_plot_per_base_content string
  | Call_generate_all_plots

text \<open>
  The class \<^verbatim>\<open>FastqReader\<close> comes from the module \<^verbatim>\<open>fastaq\<close>; the front end only calls
  it.  An analyzer is what those calls give back: a value or an exception for each method
  the handlers use.  The constructor itself is a parameter \<open>FastqReader\<close> of every handler.
\<close>

record analyzer =
  get_sequence_count :: "exn + int"
  get_average_length :: "exn + pyfloat"
  plot_per_base_quality :: "string \<Rightarrow> exn option"
  plot_sequence_length_distribution :: "string \<Rightarrow> exn option"
  plot_per_base_content :: "string \<Rightarrow> exn option"
  generate_all_plots :: "exn option"

type_synonym reader_class = "string \<Rightarrow> exn + analyzer"

text \<open>A handler returns what it printed and called, and the exception that ended it, if any.\<close>

type_synonym outcome = "event list \<times> exn option"

subsection \<open>The handlers\<close>

definition handle_stats :: "reader_class \<Rightarrow> string \<Rightarrow> string \<Rightarrow> outcome" where
  "handle_stats FastqReader fastq_file format_type =
     (let t0 = [Print [Lit ''Analyzing statistics for '', Lit fastq_file, Lit ''...''],
                Open_FastqReader fastq_file]
      in case FastqReader fastq_file of Inl e \<Rightarrow> (t0, Some e) | Inr analyzer \<Rightarrow>
         (case get_sequence_count analyzer of Inl e \<Rightarrow> (t0, Some e) | Inr cnt \<Rightarrow>
         (case get_average_length analyzer of Inl e \<Rightarrow> (t0, Some e) | Inr avg_len \<Rightarrow>
         (case int_mul_float cnt avg_len of Inl e \<Rightarrow> (t0, Some e) | Inr total_bp \<Rightarrow>
            if format_type = ''json'' then
              (t0 @ [PrintJson [(''file'', JStr fastq_file),
                               (''sequence_count'', JInt cnt),
                               (''average_length'', JFloat (round2 avg_len)),
                               (''total_bp'', JFloat (round2 total_bp))]], None)
            else
              (t0 @ [Print [Lit ''STATISTICS RESULTS:''],
                     Print [Lit ''  File: '', Lit fastq_file],
                     Print [Lit ''  Sequence count: '', IntComma cnt],
                     Print [Lit ''  Average length: '', Float2f avg_len, Lit '' bp''],
                     Print [Lit ''  Total data volume: '', FloatComma0f total_bp, Lit '' bp'']],
               None)))))"

definition handle_quality :: "reader_class \<Rightarrow> string \<Rightarrow> string \<Rightarrow> outcome" where
  "handle_quality FastqReader fastq_file output_prefix =
     (let t0 = [Print [Lit ''Quality analysis for '', Lit fastq_file, Lit ''...''],
                Open_FastqReader fastq_file]
      in case FastqReader fastq_file of Inl e \<Rightarrow> (t0, Some e) | Inr analyzer \<Rightarrow>
         (case get_sequence_count analyzer of Inl e \<Rightarrow> (t0, Some e) | Inr cnt \<Rightarrow>
         (let t1 = t0 @ [Print [Lit ''  Processing '', IntPlain cnt, Lit '' sequences...''],
                         Call_plot_per_base_quality (output_prefix @ ''_per_base_quality.png'')]
          in case plot_per_base_quality analyzer (output_prefix @ ''_per_base_quality.png'') of
               Some e \<Rightarrow> (t1, Some e) | None \<Rightarrow>
         (let t2 = t1 @ [Call_plot_sequence_length_distribution (output_prefix @ ''_length_dist.png'')]
          in case plot_sequence_length_distribution analyzer (output_prefix @ ''_length_dist.png'') of
               Some e \<Rightarrow> (t2, Some e) | None \<Rightarrow>
            (t2 @ [Print [Lit ''Quality plots saved:''],
                   Print [Lit ''  - '', Lit output_prefix, Lit ''_per_base_quality.png''],
                   Print [Lit ''  - '', Lit output_prefix, Lit ''_length_dist.png'']], None)))))"

definition handle_content :: "reader_class \<Rightarrow> string \<Rightarrow> string \<Rightarrow> outcome" where
  "handle_content FastqReader fastq_file output_file =
     (let t0 = [Print [Lit ''Nucleotide content analysis for '', Lit fastq_file, Lit ''...''],
                Open_FastqReader fastq_file]
      in case FastqReader fastq_file of Inl e \<Rightarrow> (t0, Some e) | Inr analyzer \<Rightarrow>
         (let t1 = t0 @ [Call_plot_per_base_content output_file]
          in case plot_per_base_content analyzer output_file of
               Some e \<Rightarrow> (t1, Some e) | None \<Rightarrow>
            (t1 @ [Print [Lit ''Content plot saved: '', Lit output_file]], None)))"

definition handle_full_analysis :: "reader_class \<Rightarrow> string \<Rightarrow> string \<Rightarrow> outcome" where
  "handle_full_analysis FastqReader fastq_file output_prefix =
     (let t0 = [Print [Lit ''Complete analysis for '', Lit fastq_file, Lit ''...''],
                Open_FastqReader fastq_file]
      in case FastqReader fastq_file of Inl e \<Rightarrow> (t0, Some e) | Inr analyzer \<Rightarrow>
         (case get_sequence_count analyzer of Inl e \<Rightarrow> (t0, Some e) | Inr cnt \<Rightarrow>
         (case get_average_length analyzer of Inl e \<Rightarrow> (t0, Some e) | Inr avg_len \<Rightarrow>
         (let t1 = t0 @ [Print [Lit ''STATISTICS:''],
                         Print [Lit ''  Sequences: '', IntComma cnt],
                         Print [Lit ''  Average length: '', Float2f avg_len, Lit '' bp'']]
          in case int_mul_float cnt avg_len of Inl e \<Rightarrow> (t1, Some e) | Inr total_bp \<Rightarrow>
         (let t2 = t1 @ [Print [Lit ''  Total volume: '', FloatComma0f total_bp, Lit '' bp''],
                         Print [Lit ''CREATING PLOTS...''],
                         Call_generate_all_plots]
          in case generate_all_plots analyzer of Some e \<Rightarrow> (t2, Some e) | None \<Rightarrow>
            (t2 @ [Print [Lit ''All plots created:''],
                   Print [Lit ''  - per_base_quality.png''],
                   Print [Lit ''  - per_base_content.png''],
                   Print [Lit ''  - sequence_length_distribution.png''],
                   Print [Lit ''Analysis complete. File prefix: '', Lit output_prefix]],
             None))))))"

subsection \<open>The entry point\<close>

text \<open>
  \<open>args\<close> is the namespace that \<^verbatim>\<open>parser.parse_args()\<close> returns: \<open>command\<close> is \<open>None\<close>
  when no subcommand was given, and only the fields of the chosen subcommand are read.
\<close>

record args =
  command :: "string option"
  fastq_file :: string
  format :: string
  output_prefix :: string
  output' :: string

text \<open>\<open>main\<close> returns the trace and the exit status of the process.\<close>

definition main :: "reader_class \<Rightarrow> args \<Rightarrow> event list \<times> int" where
  "main FastqReader a =
     (if command a = None \<or> command a = Some [] then ([PrintHelp], 1)
      else
        (case (if command a = Some ''stats'' then handle_stats FastqReader (fastq_file a) (format a)
               else if command a = Some ''quality'' then handle_quality FastqReader (fastq_file a) (output_prefix a)
               else if command a = Some ''content'' then handle_content FastqReader (fastq_file a) (output' a)
               else if command a = Some ''full-analysis'' then handle_full_analysis FastqReader (fastq_file a) (output_prefix a)
               else ([], None)) of
           (t, None) \<Rightarrow> (t, 0)
         | (t, Some FileNotFoundError) \<Rightarrow>
             (t @ [Print [Lit ''Error: File '', Lit (fastq_file a), Lit '' not found'']], 1)
         | (t, Some (Exception msg)) \<Rightarrow>
             (t @ [Print [Lit ''Error processing file: '', Lit msg]], 1)))"

section \<open>The analysis engine\<close>

text \<open>
  The front end takes its numbers from the class \<^verbatim>\<open>FastqReader\<close> of the module \<^verbatim>\<open>fastaq\<close>,
  which is missing from the sources at hand.  Every definition of this section is modelled
  from the specification of that engine (its sections 3 and 4): a record reader, a quality
  decoder, an aggregator with its merge law and a finalizer.
\<close>

subsection \<open>Data model\<close>

text \<open>Modelled from the spec: the error taxonomy of the missing engine (section 7).\<close>

datatype engine_error =
    InputNotFoundError
  | TruncatedRecordError
  | FormatError nat        \<comment> \<open>the number of the offending line, counted from 1\<close>
  | DecodeError nat        \<comment> \<open>a kind of format error: the number of the quality line\<close>

text \<open>
  Modelled from the spec: the two sentinel characters and the quality offset, which the
  specification leaves to the caller (section 4.1, 4.2).
\<close>

record config =
  id_sentinel :: char
  sep_sentinel :: char
  offset :: nat

definition fastq_config :: config where
  "fastq_config = \<lparr>id_sentinel = CHR ''@'', sep_sentinel = CHR ''+'', offset = 33\<rparr>"

text \<open>Modelled from the spec: a record as the reader yields it, its quality still text.\<close>

record raw_record =
  raw_id :: string
  raw_sequence :: string
  raw_quality :: string

text \<open>
  Modelled from the spec: \<^verbatim>\<open>Record\<close> (section 3), with the invariant that \<open>sequence\<close>
  and \<open>quality\<close> have the same length.
\<close>

record fq_record =
  record_id :: string
  sequence :: string
  quality :: "nat list"

text \<open>Modelled from the spec: the buckets of per-position base counts (section 3).\<close>

datatype base = BaseA | BaseC | BaseG | BaseT | BaseN | BaseOther

text \<open>
  Modelled from the spec: \<^verbatim>\<open>RunningAggregate\<close> (section 3).  The position arrays are
  taken at their logical length, the longest read length seen; capacity and doubling are
  about the cost of growing, not about the contents.
\<close>

record RunningAggregate =
  count :: nat
  length_sum :: nat
  position_quality_sum :: "nat list"
  position_quality_count :: "nat list"
  position_base_counts :: "(base \<Rightarrow> nat) list"
  length_histogram :: "nat \<rightharpoonup> nat"

text \<open>Modelled from the spec: \<^verbatim>\<open>Metrics\<close> (sections 3 and 4.4).\<close>

record metrics =
  metrics_count :: nat
  average_length :: pyfloat
  total_bp :: nat
  per_position_mean_quality :: "(nat \<times> pyfloat) list"
  per_position_base_fraction :: "(nat \<times> (base \<times> pyfloat) list) list"
  metrics_length_histogram :: "(nat \<times> nat) list"

text \<open>Modelled from the spec: what the finalizer returns (section 4.4).\<close>

datatype finalized = EmptyResult | Metrics metrics

subsection \<open>Record reader\<close>

text \<open>
  Modelled from the spec: the character stream is read line by line; a final newline
  ends the last line and starts no further one.
\<close>

fun split_lines :: "string \<Rightarrow> string \<Rightarrow> string list" where
  "split_lines cur [] = (if cur = [] then [] else [rev cur])"
| "split_lines cur (c # cs) =
     (if c = CHR 0x0A then rev cur # split_lines [] cs else split_lines (c # cur) cs)"

definition lines_of :: "string \<Rightarrow> string list" where
  "lines_of s = split_lines [] s"

text \<open>
  Modelled from the spec: one group of four lines, the first of them being line \<open>n\<close>
  (section 4.1): the identifier line starts with its sentinel, the separator line with
  the second one, and the quality line is as long as the sequence line.
\<close>

definition parse_group ::
  "config \<Rightarrow> nat \<Rightarrow> string \<Rightarrow> string \<Rightarrow> string \<Rightarrow> string \<Rightarrow> engine_error + raw_record" where
  "parse_group cfg n l1 l2 l3 l4 =
     (if l1 = [] \<or> hd l1 \<noteq> id_sentinel cfg then Inl (FormatError n)
      else if l3 = [] \<or> hd l3 \<noteq> sep_sentinel cfg then Inl (FormatError (n + 2))
      else if length l2 \<noteq> length l4 then Inl (FormatError (n + 3))
      else Inr \<lparr>raw_id = tl l1, raw_sequence = l2, raw_quality = l4\<rparr>)"

text \<open>
  Modelled from the spec: the reader yields records lazily, so a failure comes after
  the records before it: the result is the records yielded and the error that ended the
  sequence, if any.
\<close>

fun read_records :: "config \<Rightarrow> nat \<Rightarrow> string list \<Rightarrow> raw_record list \<times> engine_error option" where
  "read_records cfg n [] = ([], None)"
| "read_records cfg n (l1 # l2 # l3 # l4 # rest) =
     (case parse_group cfg n l1 l2 l3 l4 of
        Inl e \<Rightarrow> ([], Some e)
      | Inr r \<Rightarrow> (case read_records cfg (n + 4) rest of (rs, e) \<Rightarrow> (r # rs, e)))"
| "read_records cfg n _ = ([], Some TruncatedRecordError)"

definition record_reader :: "config \<Rightarrow> string \<Rightarrow> raw_record list \<times> engine_error option" where
  "record_reader cfg s = read_records cfg 1 (lines_of s)"

subsection \<open>Quality decoder\<close>

text \<open>
  Modelled from the spec: the score of a quality character is its code point minus the
  offset; a character below the offset is a \<^verbatim>\<open>DecodeError\<close> (section 4.2).
\<close>

definition decode_quality :: "config \<Rightarrow> nat \<Rightarrow> string \<Rightarrow> engine_error + nat list" where
  "decode_quality cfg n q =
     (if list_all (\<lambda>ch. offset cfg \<le> of_char ch) q
      then Inr (map (\<lambda>ch. of_char ch - offset cfg) q)
      else Inl (DecodeError n))"

definition decode_record :: "config \<Rightarrow> nat \<Rightarrow> raw_record \<Rightarrow> engine_error + fq_record" where
  "decode_record cfg n r =
     (case decode_quality cfg n (raw_quality r) of
        Inl e \<Rightarrow> Inl e
      | Inr qs \<Rightarrow> Inr \<lparr>record_id = raw_id r, sequence = raw_sequence r, quality = qs\<rparr>)"

subsection \<open>Aggregator\<close>

text \<open>Modelled from the spec: the aggregate a session starts with (section 3).\<close>

definition empty_aggregate :: RunningAggregate where
  "empty_aggregate =
     \<lparr>count = 0, length_sum = 0, position_quality_sum = [], position_quality_count = [],
      position_base_counts = [], length_histogram = Map.empty\<rparr>"

text \<open>Modelled from the spec: the bucket of a base symbol, case-insensitive (section 4.3).\<close>

definition bucket :: "char \<Rightarrow> base" where
  "bucket ch =
     (if ch = CHR ''A'' \<or> ch = CHR ''a'' then BaseA
      else if ch = CHR ''C'' \<or> ch = CHR ''c'' then BaseC
      else if ch = CHR ''G'' \<or> ch = CHR ''g'' then BaseG
      else if ch = CHR ''T'' \<or> ch = CHR ''t'' then BaseT
      else if ch = CHR ''N'' \<or> ch = CHR ''n'' then BaseN
      else BaseOther)"

text \<open>
  Modelled from the spec: base counts of a position: all zero, added bucket by bucket,
  and the counts of a single symbol.
\<close>

definition no_bases :: "base \<Rightarrow> nat" where
  "no_bases = (\<lambda>_. 0)"

definition add_bases :: "(base \<Rightarrow> nat) \<Rightarrow> (base \<Rightarrow> nat) \<Rightarrow> base \<Rightarrow> nat" where
  "add_bases f g = (\<lambda>b. f b + g b)"

definition one_base :: "char \<Rightarrow> base \<Rightarrow> nat" where
  "one_base ch = no_bases (bucket ch := 1)"

text \<open>
  Modelled from the spec: growing a position array to \<open>L\<close> cells (section 4.3): the old
  cells are kept, the new ones are zero.
\<close>

definition grow :: "'a \<Rightarrow> nat \<Rightarrow> 'a list \<Rightarrow> 'a list" where
  "grow z L xs = (if length xs < L then xs @ replicate (L - length xs) z else xs)"

text \<open>
  Modelled from the spec: the loop over the positions \<open>i < L\<close> of \<open>update\<close>: \<open>vs\<close> is added
  to the first \<open>length vs\<close> cells of \<open>xs\<close>, which has that many cells.
\<close>

definition add_upto :: "('a \<Rightarrow> 'a \<Rightarrow> 'a) \<Rightarrow> 'a list \<Rightarrow> 'a list \<Rightarrow> 'a list" where
  "add_upto f xs vs = map2 f (take (length vs) xs) vs @ drop (length vs) xs"

text \<open>Modelled from the spec: one more read of length \<open>L\<close> in the histogram (section 4.3).\<close>

definition bump :: "(nat \<rightharpoonup> nat) \<Rightarrow> nat \<Rightarrow> (nat \<rightharpoonup> nat)" where
  "bump h L = h(L \<mapsto> (case h L of None \<Rightarrow> 1 | Some c \<Rightarrow> c + 1))"

text \<open>Modelled from the spec: \<^verbatim>\<open>update(record)\<close> (section 4.3).\<close>

definition update :: "RunningAggregate \<Rightarrow> fq_record \<Rightarrow> RunningAggregate" where
  "update a r =
     (let L = length (sequence r)
      in \<lparr>count = count a + 1,
          length_sum = length_sum a + L,
          position_quality_sum = add_upto (+) (grow 0 L (position_quality_sum a)) (quality r),
          position_quality_count =
            add_upto (+) (grow 0 L (position_quality_count a)) (replicate L 1),
          position_base_counts =
            add_upto add_bases (grow no_bases L (position_base_counts a)) (map one_base (sequence r)),
          length_histogram = bump (length_histogram a) L\<rparr>)"

text \<open>
  Modelled from the spec: the merge law (section 4.3): counters and histograms are added,
  position arrays are added cell by cell up to the longer one, a missing tail counting
  as zero.
\<close>

fun add_padded :: "('a \<Rightarrow> 'a \<Rightarrow> 'a) \<Rightarrow> 'a list \<Rightarrow> 'a list \<Rightarrow> 'a list" where
  "add_padded f [] ys = ys"
| "add_padded f xs [] = xs"
| "add_padded f (x # xs) (y # ys) = f x y # add_padded f xs ys"

definition add_histograms :: "(nat \<rightharpoonup> nat) \<Rightarrow> (nat \<rightharpoonup> nat) \<Rightarrow> (nat \<rightharpoonup> nat)" where
  "add_histograms g h =
     (\<lambda>L. case g L of None \<Rightarrow> h L
               | Some c \<Rightarrow> (case h L of None \<Rightarrow> Some c | Some d \<Rightarrow> Some (c + d)))"

definition merge :: "RunningAggregate \<Rightarrow> RunningAggregate \<Rightarrow> RunningAggregate" where
  "merge a b =
     \<lparr>count = count a + count b,
      length_sum = length_sum a + length_sum b,
      position_quality_sum = add_padded (+) (position_quality_sum a) (position_quality_sum b),
      position_quality_count =
        add_padded (+) (position_quality_count a) (position_quality_count b),
      position_base_counts =
        add_padded add_bases (position_base_counts a) (position_base_counts b),
      length_histogram = add_histograms (length_histogram a) (length_histogram b)\<rparr>"

text \<open>
  Modelled from the spec: aggregating a batch of records (section 3, lifecycle): one
  \<open>update\<close> for each, from the empty aggregate.
\<close>

definition aggregate_from :: "RunningAggregate \<Rightarrow> fq_record list \<Rightarrow> RunningAggregate" where
  "aggregate_from a rs = foldl update a rs"

definition aggregate :: "fq_record list \<Rightarrow> RunningAggregate" where
  "aggregate rs = aggregate_from empty_aggregate rs"

subsection \<open>Finalizer\<close>

text \<open>
  Modelled from the spec: \<^verbatim>\<open>a / b\<close> on two integers, rounded once.  It is only used with
  a positive \<open>b\<close>: the finalizer divides by a positive count and nothing else (a zero
  divisor would be a \<^verbatim>\<open>ZeroDivisionError\<close>).
\<close>

definition float_div :: "nat \<Rightarrow> nat \<Rightarrow> pyfloat" where
  "float_div a b = round_binary64 (of_nat a / of_nat b)"

definition all_bases :: "base list" where
  "all_bases = [BaseA, BaseC, BaseG, BaseT, BaseN, BaseOther]"

text \<open>Modelled from the spec: the positions that at least one record covers (section 4.4).\<close>

definition covered :: "RunningAggregate \<Rightarrow> nat list" where
  "covered a =
     filter (\<lambda>i. 0 < position_quality_count a ! i) [0 ..< length (position_quality_count a)]"

text \<open>
  Modelled from the spec: the histogram as pairs sorted by length (section 4.4).  No read
  is longer than the position arrays, so the lengths up to theirs are all there is to list.
\<close>

definition sorted_histogram :: "RunningAggregate \<Rightarrow> (nat \<times> nat) list" where
  "sorted_histogram a =
     concat (map (\<lambda>L. case length_histogram a L of None \<Rightarrow> [] | Some c \<Rightarrow> [(L, c)])
                 [0 ..< Suc (length (position_quality_count a))])"

text \<open>Modelled from the spec: \<^verbatim>\<open>compute(aggregate)\<close> (section 4.4).\<close>

definition compute :: "RunningAggregate \<Rightarrow> finalized" where
  "compute a =
     (if count a = 0 then EmptyResult
      else Metrics
        \<lparr>metrics_count = count a,
         average_length = float_div (length_sum a) (count a),
         total_bp = length_sum a,
         per_position_mean_quality =
           map (\<lambda>i. (i, float_div (position_quality_sum a ! i) (position_quality_count a ! i)))
               (covered a),
         per_position_base_fraction =
           map (\<lambda>i. (i, map (\<lambda>b. (b, float_div ((position_base_counts a ! i) b)
                                                   (position_quality_count a ! i)))
                            all_bases))
               (covered a),
         metrics_length_histogram = sorted_histogram a\<rparr>)"

subsection \<open>A pass\<close>

text \<open>
  Modelled from the spec: one pass (sections 2 and 3): each group of four lines is
  read, decoded and fed to \<open>update\<close> before the next one is looked at; the first failure
  ends the pass and the aggregate is dropped.
\<close>

fun pass_from :: "config \<Rightarrow> nat \<Rightarrow> string list \<Rightarrow> RunningAggregate \<Rightarrow> engine_error + RunningAggregate" where
  "pass_from cfg n [] a = Inr a"
| "pass_from cfg n (l1 # l2 # l3 # l4 # rest) a =
     (case parse_group cfg n l1 l2 l3 l4 of
        Inl e \<Rightarrow> Inl e
      | Inr raw \<Rightarrow>
          (case decode_record cfg (n + 3) raw of
             Inl e \<Rightarrow> Inl e
           | Inr r \<Rightarrow> pass_from cfg (n + 4) rest (update a r)))"
| "pass_from cfg n _ a = Inl TruncatedRecordError"

definition run_pass :: "config \<Rightarrow> string \<Rightarrow> engine_error + RunningAggregate" where
  "run_pass cfg s = pass_from cfg 1 (lines_of s) empty_aggregate"

definition analyze :: "config \<Rightarrow> string \<Rightarrow> engine_error + finalized" where
  "analyze cfg s = (case run_pass cfg s of Inl e \<Rightarrow> Inl e | Inr a \<Rightarrow> Inr (compute a))"

subsection \<open>Shards\<close>

text \<open>Modelled from the spec: the invariant of a record (section 3): one score for each base.\<close>

definition well_formed :: "fq_record \<Rightarrow> bool" where
  "well_formed r \<longleftrightarrow> length (quality r) = length (sequence r)"

text \<open>
  Modelled from the spec: a way of running the analysis in parallel (section 5): the records
  are dealt out to shards, each shard is aggregated on its own, and the aggregates are
  merged pairwise in some grouping.
\<close>

datatype plan = Shard "fq_record list" | Merged plan plan

fun shard_records :: "plan \<Rightarrow> fq_record list" where
  "shard_records (Shard rs) = rs"
| "shard_records (Merged p q) = shard_records p @ shard_records q"

fun run_plan :: "plan \<Rightarrow> RunningAggregate" where
  "run_plan (Shard rs) = aggregate rs"
| "run_plan (Merged p q) = merge (run_plan p) (run_plan q)"

text \<open>Modelled from the spec: the sum over all buckets of a length histogram (section 8).\<close>

definition histogram_total :: "(nat \<rightharpoonup> nat) \<Rightarrow> nat" where
  "histogram_total h = (\<Sum>L\<in>dom h. the (h L))"

text \<open>
  Modelled from the spec: a raw record is decodable when no quality character lies below
  the offset (section 4.2); \<open>decoded\<close> is then the record the decoder yields.
\<close>

definition decodable :: "config \<Rightarrow> raw_record \<Rightarrow> bool" where
  "decodable cfg r \<longleftrightarrow> list_all (\<lambda>ch. offset cfg \<le> of_char ch) (raw_quality r)"

definition decoded :: "config \<Rightarrow> raw_record \<Rightarrow> fq_record" where
  "decoded cfg r =
     \<lparr>record_id = raw_id r, sequence = raw_sequence r,
      quality = map (\<lambda>ch. of_char ch - offset cfg) (raw_quality r)\<rparr>"

subsection \<open>Example inputs\<close>

definition newline :: char where
  "newline = CHR 0x0A"

definition unlines :: "string list \<Rightarrow> string" where
  "unlines ls = concat (map (\<lambda>l. l @ [newline]) ls)"

text \<open>Two reads of lengths 5 and 7, every quality character being \<open>I\<close> (score 40 at offset 33).\<close>

definition two_reads :: string where
  "two_reads = unlines [''@r1'', ''ACGTA'', ''+'', ''IIIII'', ''@r2'', ''ACGTACG'', ''+'', ''IIIIIII'']"

text \<open>A good read followed by one whose quality line is too short.\<close>

definition second_read_short :: string where
  "second_read_short = unlines [''@a'', ''AC'', ''+'', ''II'', ''@b'', ''ACG'', ''+'', ''I'']"

definition raw_r1 :: raw_record where
  "raw_r1 = \<lparr>raw_id = ''r1'', raw_sequence = ''ACGTA'', raw_quality = ''IIIII''\<rparr>"

definition raw_r2 :: raw_record where
  "raw_r2 = \<lparr>raw_id = ''r2'', raw_sequence = ''ACGTACG'', raw_quality = ''IIIIIII''\<rparr>"

definition rec_a :: fq_record where "rec_a = \<lparr>record_id = ''r1'', sequence = ''AC'', quality = [40, 40]\<rparr>"
definition rec_b :: fq_record where "rec_b = \<lparr>record_id = ''r2'', sequence = ''G'', quality = [30]\<rparr>"
definition rec_c :: fq_record where "rec_c = \<lparr>record_id = ''r3'', sequence = ''TNA'', quality = [10, 20, 30]\<rparr>"
definition rec_d :: fq_record where "rec_d = \<lparr>record_id = ''r4'', sequence = ''ac'', quality = [2, 3]\<rparr>"

text \<open>The events that call into \<^verbatim>\<open>FastqReader\<close> (all others only print).\<close>

fun is_call :: "event \<Rightarrow> bool" where
  "is_call (Open_FastqReader _) = True"
| "is_call (Call_plot_per_base_quality _) = True"
| "is_call (Call_plot_sequence_length_distribution _) = True"
| "is_call (Call_plot_per_base_content _) = True"
| "is_call Call_generate_all_plots = True"
| "is_call _ = False"

text \<open>The totals a run reports: what is printed as the volume, or as \<^verbatim>\<open>total_bp\<close> in JSON.\<close>

fun reported_totals :: "event \<Rightarrow> pyfloat list" where
  "reported_totals (Print ps) = concat (map (\<lambda>p. case p of FloatComma0f x \<Rightarrow> [x] | _ \<Rightarrow> []) ps)"
| "reported_totals (PrintJson kvs) =
     concat (map (\<lambda>kv. case kv of (k, JFloat x) \<Rightarrow> (if k = ''total_bp'' then [x] else []) | _ \<Rightarrow> []) kvs)"
| "reported_totals _ = []"

text \<open>
  An analyzer that answers the two questions as given and whose plots succeed, and the
  reader class that gives it for every file.
\<close>

definition answers :: "exn + int \<Rightarrow> exn + pyfloat \<Rightarrow> analyzer" where
  "answers c a =
     \<lparr>get_sequence_count = c, get_average_length = a,
      plot_per_base_quality = (\<lambda>_. None), plot_sequence_length_distribution = (\<lambda>_. None),
      plot_per_base_content = (\<lambda>_. None), generate_all_plots = None\<rparr>"

definition always :: "analyzer \<Rightarrow> reader_class" where
  "always an = (\<lambda>_. Inr an)"

text \<open>A reader class for the examples: no file exists.\<close>

definition no_files :: reader_class where
  "no_files = (\<lambda>_. Inl FileNotFoundError)"

definition no_command :: args where
  "no_command = \<lparr>command = None, fastq_file = [], format = [], output_prefix = [], output' = []\<rparr>"

definition stats_command :: "string \<Rightarrow> string \<Rightarrow> args" where
  "stats_command f fmt =
     \<lparr>command = Some ''stats'', fastq_file = f, format = fmt, output_prefix = [], output' = []\<rparr>"

section \<open>Properties of binary64 rounding\<close>

lemma rhe_nearest:
  assumes "0 < d"
  shows "\<bar>of_int (rhe n d) - (of_int n / of_int d :: rat)\<bar> \<le> 1 / 2"
proof -
  define q where "q = n div d"
  define r where "r = n mod d"
  have n: "n = q * d + r" by (simp add: q_def r_def)
  have r: "0 \<le> r" "r < d" using assms by (simp_all add: r_def)
  have x: "(of_int n / of_int d :: rat) = of_int q + of_int r / of_int d"
    using assms by (simp add: n field_simps)
  have d: "(0::rat) < of_int d" using assms by simp
  consider "2 * r < d" | "d < 2 * r" | "2 * r = d" by linarith
  then show ?thesis
  proof cases
    case 1
    then have "rhe n d = q" by (simp add: rhe_def q_def r_def Let_def)
    moreover have "(of_int r / of_int d :: rat) < 1 / 2"
      using 1 d by (simp add: field_simps)
    moreover have "(0::rat) \<le> of_int r / of_int d" using r d by simp
    ultimately show ?thesis by (simp add: x)
  next
    case 2
    then have "rhe n d = q + 1" by (simp add: rhe_def q_def r_def Let_def)
    moreover have "(of_int r / of_int d :: rat) > 1 / 2"
      using 2 d by (simp add: field_simps)
    moreover have "(of_int r / of_int d :: rat) < 1" using r d by simp
    ultimately show ?thesis by (simp add: x)
  next
    case 3
    then have h: "(of_int r / of_int d :: rat) = 1 / 2"
      using d by (simp add: field_simps)
    have "rhe n d = q \<or> rhe n d = q + 1"
      using 3 by (simp add: rhe_def q_def r_def Let_def)
    then show ?thesis by (auto simp: x h)
  qed
qed


lemma bitlen_powi:
  assumes "0 < p"
  shows "(2::rat) powi (bitlen p - 1) \<le> of_int p" and "of_int p < (2::rat) powi bitlen p"
proof -
  from bitlen_bounds [OF assms] have b: "2 ^ nat (bitlen p - 1) \<le> p" "p < 2 ^ nat (bitlen p)"
    by simp_all
  have ge: "1 \<le> bitlen p"
    using assms bitlen_eq_zero_iff [of p] bitlen_nonneg [of p] by linarith
  have "(2::rat) powi (bitlen p - 1) = 2 ^ nat (bitlen p - 1)"
    using ge by (simp add: power_int_def)
  also have "\<dots> = of_int (2 ^ nat (bitlen p - 1))" by simp
  also have "\<dots> \<le> of_int p" using b(1) by (simp only: of_int_le_iff)
  finally show "(2::rat) powi (bitlen p - 1) \<le> of_int p" .
  have "(of_int p :: rat) < of_int (2 ^ nat (bitlen p))" using b(2) by (simp only: of_int_less_iff)
  also have "\<dots> = 2 powi bitlen p"
    using ge by (simp add: power_int_def)
  finally show "of_int p < (2::rat) powi bitlen p" .
qed

lemma ilog2_test:
  assumes "0 < p" "0 < q"
  shows "(if 0 \<le> k then q * 2 ^ nat k \<le> p else q \<le> p * 2 ^ nat (- k))
           \<longleftrightarrow> (2::rat) powi k \<le> of_int p / of_int q"
proof (cases "0 \<le> k")
  case True
  have "q * 2 ^ nat k \<le> p \<longleftrightarrow> (of_int (q * 2 ^ nat k) :: rat) \<le> of_int p"
    by (simp only: of_int_le_iff)
  also have "\<dots> \<longleftrightarrow> (2::rat) powi k \<le> of_int p / of_int q"
    using True assms by (simp add: power_int_def field_simps)
  finally show ?thesis using True by simp
next
  case False
  have "q \<le> p * 2 ^ nat (- k) \<longleftrightarrow> (of_int q :: rat) \<le> of_int (p * 2 ^ nat (- k))"
    by (simp only: of_int_le_iff)
  also have "\<dots> \<longleftrightarrow> (2::rat) powi k \<le> of_int p / of_int q"
    using False assms by (simp add: power_int_def field_simps)
  finally show ?thesis using False by simp
qed

lemma ilog2_bounds:
  assumes "0 < p" "0 < q"
  shows "(2::rat) powi (ilog2 p q) \<le> of_int p / of_int q"
    and "of_int p / of_int q < (2::rat) powi (ilog2 p q + 1)"
proof -
  define k where "k = bitlen p - bitlen q"
  have qpos: "(0::rat) < of_int q" using assms by simp
  have lo: "(2::rat) powi (k - 1) < of_int p / of_int q"
  proof -
    have "(2::rat) powi (k - 1) = 2 powi (bitlen p - 1) / 2 powi bitlen q"
      by (simp add: k_def power_int_diff)
    also have "\<dots> \<le> of_int p / 2 powi bitlen q"
      using bitlen_powi(1) [OF assms(1)] by (simp add: divide_right_mono)
    also have "\<dots> < of_int p / of_int q"
      using bitlen_powi(2) [OF assms(2)] assms by (simp add: frac_less2)
    finally show ?thesis .
  qed
  have hi: "of_int p / of_int q < (2::rat) powi (k + 1)"
  proof -
    have "of_int p / of_int q < (2::rat) powi bitlen p / of_int q"
      using bitlen_powi(2) [OF assms(1)] qpos by (simp add: divide_strict_right_mono)
    also have "\<dots> \<le> 2 powi bitlen p / 2 powi (bitlen q - 1)"
      using bitlen_powi(1) [OF assms(2)] by (simp add: frac_le)
    also have "\<dots> = 2 powi (bitlen p - (bitlen q - 1))"
      by (subst power_int_diff) simp_all
    also have "bitlen p - (bitlen q - 1) = k + 1"
      by (simp add: k_def)
    finally show ?thesis .
  qed
  show "(2::rat) powi (ilog2 p q) \<le> of_int p / of_int q"
    using lo ilog2_test [OF assms, of k]
    by (auto simp: ilog2_def Let_def k_def [symmetric])
  show "of_int p / of_int q < (2::rat) powi (ilog2 p q + 1)"
    using hi ilog2_test [OF assms, of k]
    by (auto simp: ilog2_def Let_def k_def [symmetric])
qed


lemma scaled_rhe_error:
  assumes "0 < q"
  shows "\<bar>(if 0 \<le> s then of_int (rhe p (q * 2 ^ nat s)) * 2 ^ nat s
          else of_int (rhe (p * 2 ^ nat (- s)) q) / 2 ^ nat (- s)) - (of_int p / of_int q :: rat)\<bar>
         \<le> 2 powi s / 2"
proof (cases "0 \<le> s")
  case True
  define n where "n = nat s"
  have s: "(2::rat) powi s = 2 ^ n" using True by (simp add: n_def power_int_def)
  have d: "0 < q * 2 ^ n" using assms by simp
  have "\<bar>of_int (rhe p (q * 2 ^ n)) - (of_int p / of_int (q * 2 ^ n) :: rat)\<bar> \<le> 1 / 2"
    by (rule rhe_nearest [OF d])
  then have "\<bar>of_int (rhe p (q * 2 ^ n)) - (of_int p / of_int (q * 2 ^ n) :: rat)\<bar> * 2 ^ n
      \<le> 1 / 2 * 2 ^ n"
    by (intro mult_right_mono) simp_all
  also have "\<bar>of_int (rhe p (q * 2 ^ n)) - (of_int p / of_int (q * 2 ^ n) :: rat)\<bar> * 2 ^ n
      = \<bar>of_int (rhe p (q * 2 ^ n)) * 2 ^ n - (of_int p / of_int q :: rat)\<bar>"
  proof -
    have "\<bar>of_int (rhe p (q * 2 ^ n)) - (of_int p / of_int (q * 2 ^ n) :: rat)\<bar> * 2 ^ n
        = \<bar>(of_int (rhe p (q * 2 ^ n)) - (of_int p / of_int (q * 2 ^ n) :: rat)) * 2 ^ n\<bar>"
      by (simp add: abs_mult)
    also have "(of_int (rhe p (q * 2 ^ n)) - (of_int p / of_int (q * 2 ^ n) :: rat)) * 2 ^ n
        = of_int (rhe p (q * 2 ^ n)) * 2 ^ n - (of_int p / of_int q :: rat)"
      using assms by (simp add: field_simps)
    finally show ?thesis .
  qed
  finally show ?thesis using True by (simp add: s n_def)
next
  case False
  define n where "n = nat (- s)"
  have s: "(2::rat) powi s = 1 / 2 ^ n" using False by (simp add: n_def power_int_def field_simps)
  have "\<bar>of_int (rhe (p * 2 ^ n) q) - (of_int (p * 2 ^ n) / of_int q :: rat)\<bar> \<le> 1 / 2"
    by (rule rhe_nearest [OF assms])
  then have "\<bar>of_int (rhe (p * 2 ^ n) q) - (of_int (p * 2 ^ n) / of_int q :: rat)\<bar> / 2 ^ n
      \<le> 1 / 2 / 2 ^ n"
    by (intro divide_right_mono) simp_all
  also have "\<bar>of_int (rhe (p * 2 ^ n) q) - (of_int (p * 2 ^ n) / of_int q :: rat)\<bar> / 2 ^ n
      = \<bar>of_int (rhe (p * 2 ^ n) q) / 2 ^ n - (of_int p / of_int q :: rat)\<bar>"
  proof -
    have "\<bar>of_int (rhe (p * 2 ^ n) q) - (of_int (p * 2 ^ n) / of_int q :: rat)\<bar> / 2 ^ n
        = \<bar>(of_int (rhe (p * 2 ^ n) q) - (of_int (p * 2 ^ n) / of_int q :: rat)) / 2 ^ n\<bar>"
      by simp
    also have "(of_int (rhe (p * 2 ^ n) q) - (of_int (p * 2 ^ n) / of_int q :: rat)) / 2 ^ n
        = of_int (rhe (p * 2 ^ n) q) / 2 ^ n - (of_int p / of_int q :: rat)"
      using assms by (simp add: field_simps)
    finally show ?thesis .
  qed
  finally show ?thesis using False by (simp add: s n_def)
qed

lemma powi_less_imp_less:
  assumes "(2::rat) powi a < 2 powi b"
  shows "a < b"
proof (rule ccontr)
  assume "\<not> a < b"
  then have "(2::rat) powi b \<le> 2 powi a"
    by (intro power_int_increasing) simp_all
  with assms show False by linarith
qed

lemma round_frac_relative:
  assumes "0 < p" "0 < q"
      and lo: "(2::rat) powi (- 1022) \<le> of_int p / of_int q"
      and hi: "of_int p / of_int q < (2::rat) ^ 1023"
  shows "\<exists>y. round_frac p q = Some y \<and> \<bar>y - of_int p / of_int q\<bar> \<le> (of_int p / of_int q) / 2 ^ 53"
proof -
  define x :: rat where "x = of_int p / of_int q"
  define e where "e = ilog2 p q"
  have xpos: "0 < x" using assms by (simp add: x_def)
  have b: "2 powi e \<le> x" "x < 2 powi (e + 1)"
    using ilog2_bounds [OF assms(1,2)] by (simp_all add: x_def e_def)
  have "(2::rat) powi (- 1022) < 2 powi (e + 1)"
    using lo b(2) unfolding x_def by (rule le_less_trans)
  then have "- 1022 < e + 1"
    by (rule powi_less_imp_less)
  then have e: "max e (- 1022) = e" by simp
  define s where "s = e - 52"
  define y :: rat where "y = (if 0 \<le> s then of_int (rhe p (q * 2 ^ nat s)) * 2 ^ nat s
          else of_int (rhe (p * 2 ^ nat (- s)) q) / 2 ^ nat (- s))"
  have err: "\<bar>y - x\<bar> \<le> 2 powi s / 2"
    unfolding y_def x_def by (rule scaled_rhe_error [OF assms(2)])
  have "(2::rat) powi s / 2 = 2 powi e / 2 ^ 53"
    by (simp add: s_def power_int_diff)
  also have "\<dots> \<le> x / 2 ^ 53"
    using b(1) by (simp add: divide_right_mono)
  finally have rel: "\<bar>y - x\<bar> \<le> x / 2 ^ 53"
    using err by linarith
  have "y \<le> x + x / 2 ^ 53" using rel by linarith
  also have "\<dots> < 2 ^ 1023 + 2 ^ 1023 / 2 ^ 53"
    using hi by (intro add_strict_mono divide_strict_right_mono) (simp_all add: x_def)
  also have "\<dots> \<le> (2::rat) ^ 1024" by simp
  finally have "\<not> 2 ^ 1024 \<le> y" by simp
  then have "round_frac p q = Some y"
    by (simp add: round_frac_def Let_def e_def [symmetric] e s_def [symmetric] y_def [symmetric])
  with rel show ?thesis by (auto simp: x_def)
qed


lemma round_binary64_relative:
  assumes lo: "(2::rat) powi (- 1022) \<le> x" and hi: "x < 2 ^ 1023"
  shows "\<exists>y. round_binary64 x = Finite y \<and> \<bar>y - x\<bar> \<le> x / 2 ^ 53"
proof -
  have xpos: "0 < x"
    using lo zero_less_power_int [of "2::rat" "- 1022"] by linarith
  obtain p q where pq: "quotient_of x = (p, q)"
    by (cases "quotient_of x")
  have q: "0 < q" using pq by (rule quotient_of_denom_pos)
  have x: "x = of_int p / of_int q" using pq by (rule quotient_of_div)
  have p: "0 < p"
    using xpos q unfolding x by (simp add: zero_less_divide_iff)
  from round_frac_relative [OF p q lo [unfolded x] hi [unfolded x]]
  obtain y where y: "round_frac p q = Some y" "\<bar>y - x\<bar> \<le> x / 2 ^ 53"
    unfolding x by blast
  have "round_binary64 x = Finite y"
    using xpos pq y(1) by (simp add: round_binary64_def)
  with y(2) show ?thesis by blast
qed

lemma rhe_1 [simp]: "rhe n 1 = n"
  by (simp add: rhe_def)

lemma round_binary64_int:
  assumes "0 \<le> c" "c < 2 ^ 53"
  shows "round_binary64 (of_int c) = Finite (of_int c)"
proof (cases "c = 0")
  case True
  then show ?thesis by (simp add: round_binary64_def)
next
  case False
  then have c: "0 < c" using assms by simp
  define e where "e = ilog2 c 1"
  have b: "(2::rat) powi e \<le> of_int c" "of_int c < (2::rat) powi (e + 1)"
    using ilog2_bounds [OF c, of 1] by (simp_all add: e_def)
  have "(2::rat) powi 0 \<le> of_int c" using c by simp
  from this b(2) have "(2::rat) powi 0 < 2 powi (e + 1)" by (rule le_less_trans)
  then have e0: "0 \<le> e" using powi_less_imp_less by fastforce
  have "(of_int c :: rat) < of_int (2 ^ 53)"
    using assms(2) by (simp only: of_int_less_iff)
  then have "(of_int c :: rat) < 2 powi 53" by simp
  from b(1) this have "(2::rat) powi e < 2 powi 53" by (rule le_less_trans)
  then have e53: "e < 53" by (rule powi_less_imp_less)
  have m: "max e (- 1022) = e" using e0 by simp
  have big: "\<not> (2::rat) ^ 1024 \<le> of_int c"
  proof -
    have "(of_int c :: rat) < 2 ^ 53" using \<open>(of_int c :: rat) < of_int (2 ^ 53)\<close> by simp
    also have "\<dots> \<le> (2::rat) ^ 1024" by simp
    finally show ?thesis by simp
  qed
  have "round_frac c 1 = Some (of_int c)"
    using e53 big by (simp add: round_frac_def Let_def e_def [symmetric] m)
  then show ?thesis
    using c by (simp add: round_binary64_def)
qed

lemma rhe_unique:
  assumes "0 < q" and "\<bar>(of_int p / of_int q :: rat) - of_int n\<bar> < 1 / 2"
  shows "rhe p q = n"
proof -
  have "\<bar>of_int (rhe p q) - (of_int p / of_int q :: rat)\<bar> \<le> 1 / 2"
    by (rule rhe_nearest [OF assms(1)])
  with assms(2) have "\<bar>(of_int (rhe p q) :: rat) - of_int n\<bar> < 1"
    by linarith
  then have "\<bar>(of_int (rhe p q - n) :: rat)\<bar> < of_int 1"
    by simp
  then have "\<bar>rhe p q - n\<bar> < 1"
    by (simp only: of_int_abs [symmetric] of_int_less_iff)
  then show ?thesis by simp
qed

lemma shown_0f_near:
  assumes "\<bar>x - of_int n\<bar> < 1 / 2"
  shows "shown_0f x = n"
proof -
  obtain p q where pq: "quotient_of x = (p, q)"
    by (cases "quotient_of x")
  have q: "0 < q" using pq by (rule quotient_of_denom_pos)
  have x: "x = of_int p / of_int q" using pq by (rule quotient_of_div)
  show ?thesis
    using rhe_unique [OF q assms [unfolded x]] by (simp add: shown_0f_def pq)
qed

lemma round2_near:
  assumes "\<bar>x - of_int n\<bar> < 1 / 200" and "0 \<le> n" and "n < 2 ^ 53"
  shows "round2 (Finite x) = Finite (of_int n)"
proof -
  obtain p q where pq: "quotient_of x = (p, q)"
    by (cases "quotient_of x")
  have q: "0 < q" using pq by (rule quotient_of_denom_pos)
  have x: "x = of_int p / of_int q" using pq by (rule quotient_of_div)
  have "(of_int (p * 100) / of_int q :: rat) - of_int (n * 100) = 100 * (x - of_int n)"
    by (simp add: x algebra_simps)
  then have "\<bar>(of_int (p * 100) / of_int q :: rat) - of_int (n * 100)\<bar> = 100 * \<bar>x - of_int n\<bar>"
    by (simp only: abs_mult)
  also have "\<dots> < 1 / 2" using assms(1) by simp
  finally have "rhe (p * 100) q = n * 100"
    by (rule rhe_unique [OF q])
  then show ?thesis
    using round_binary64_int [OF assms(2,3)] by (simp add: pq)
qed

lemma product_near_sum:
  assumes c: "0 < c" "c \<le> 2 ^ 50" and ls: "0 < ls" "ls \<le> 2 ^ 50"
  shows "\<exists>t. int_mul_float (int c) (float_div ls c) = Inr (Finite t) \<and>
             \<bar>t - of_nat ls\<bar> < of_nat ls / 2 ^ 51"
proof -
  define x :: rat where "x = of_nat ls / of_nat c"
  have cpos: "(0::rat) < of_nat c" using c by simp
  have lpos: "(0::rat) < of_nat ls" using ls by simp
  have c50: "(of_nat c :: rat) \<le> 2 ^ 50"
  proof -
    have "(of_nat c :: rat) \<le> of_nat (2 ^ 50)" using c(2) by (simp only: of_nat_le_iff)
    then show ?thesis by simp
  qed
  have l50: "(of_nat ls :: rat) \<le> 2 ^ 50"
  proof -
    have "(of_nat ls :: rat) \<le> of_nat (2 ^ 50)" using ls(2) by (simp only: of_nat_le_iff)
    then show ?thesis by simp
  qed
  have c1: "(1::rat) \<le> of_nat c" using c(1) by simp
  have l1: "(1::rat) \<le> of_nat ls" using ls(1) by simp
  have xlo: "1 / 2 ^ 50 \<le> x"
    unfolding x_def using c50 l1 cpos by (intro frac_le) simp_all
  have xhi: "x \<le> 2 ^ 50"
  proof -
    have "x \<le> of_nat ls / 1" unfolding x_def using c1 lpos by (intro divide_left_mono) simp_all
    with l50 show ?thesis by simp
  qed
  have "(2::rat) powi (- 1022) \<le> 1 / 2 ^ 50"
    by (simp add: power_int_def field_simps)
  with xlo have lo1: "(2::rat) powi (- 1022) \<le> x" by linarith
  have hi1: "x < 2 ^ 1023" using xhi by (rule le_less_trans) simp
  from round_binary64_relative [OF lo1 hi1]
  obtain a where a: "round_binary64 x = Finite a" "\<bar>a - x\<bar> \<le> x / 2 ^ 53"
    by blast
  have fd: "float_div ls c = Finite a"
    by (simp add: float_div_def a(1) [unfolded x_def])
  have "int c \<le> int (2 ^ 50)" using c(2) by (simp only: of_nat_le_iff)
  also have "\<dots> < 2 ^ 53" by simp
  finally have "int c < 2 ^ 53" .
  then have ic: "int_to_float (int c) = Inr (Finite (of_nat c))"
    using round_binary64_int [of "int c"] by (simp add: int_to_float_def)
  define z :: rat where "z = of_nat c * a"
  define u :: rat where "u = of_nat ls / 2 ^ 53"
  have upos: "0 < u" using lpos by (simp add: u_def)
  have cx: "of_nat c * x = of_nat ls" using cpos by (simp add: x_def)
  have "\<bar>z - of_nat ls\<bar> = of_nat c * \<bar>a - x\<bar>"
    unfolding z_def cx [symmetric] using cpos by (simp add: abs_mult right_diff_distrib [symmetric] del: of_nat_mult)
  also have "\<dots> \<le> of_nat c * (x / 2 ^ 53)"
    using a(2) cpos by (intro mult_left_mono) simp_all
  also have "\<dots> = u"
    using cx by (simp add: field_simps u_def)
  finally have zl: "\<bar>z - of_nat ls\<bar> \<le> u" .
  have u8: "u \<le> 1 / 8"
    using l50 by (simp add: field_simps u_def)
  have zlo: "1 / 2 \<le> z" using zl u8 l1 by linarith
  have zhi: "z \<le> 2 ^ 50 + 1 / 8" using zl u8 l50 by linarith
  have "(2::rat) powi (- 1022) \<le> 1 / 2"
    by (simp add: power_int_def field_simps)
  with zlo have lo2: "(2::rat) powi (- 1022) \<le> z" by linarith
  have hi2: "z < 2 ^ 1023" using zhi by (rule le_less_trans) simp
  from round_binary64_relative [OF lo2 hi2]
  obtain t where t: "round_binary64 z = Finite t" "\<bar>t - z\<bar> \<le> z / 2 ^ 53"
    by blast
  have "z \<le> of_nat ls + u" using zl by linarith
  then have "z / 2 ^ 53 \<le> (of_nat ls + u) / 2 ^ 53"
    by (simp add: divide_right_mono)
  also have "\<dots> = u + u / 2 ^ 53"
    by (simp add: u_def add_divide_distrib)
  also have "\<dots> < u + u"
    using upos by (simp add: field_simps)
  finally have tz: "\<bar>t - z\<bar> < u + u" using t(2) by linarith
  have "int_mul_float (int c) (float_div ls c) = Inr (Finite t)"
    by (simp add: int_mul_float_def ic fd t(1) [unfolded z_def])
  moreover have "\<bar>t - of_nat ls\<bar> < of_nat ls / 2 ^ 51"
  proof -
    have "\<bar>t - of_nat ls\<bar> < 4 * u" using tz zl upos by linarith
    also have "4 * u = of_nat ls / 2 ^ 51" by (simp add: u_def)
    finally show ?thesis .
  qed
  ultimately show ?thesis by blast
qed

lemma product_of_quotient:
  assumes "0 < c" "c \<le> 2 ^ 50" "ls \<le> 2 ^ 50"
  shows "\<exists>t. int_mul_float (int c) (float_div ls c) = Inr (Finite t) \<and>
             \<bar>t - of_nat ls\<bar> < 1 / 2 \<and> shown_0f t = int ls \<and>
             (ls \<le> 2 ^ 43 \<longrightarrow> round2 (Finite t) = Finite (of_nat ls))"
proof (cases "ls = 0")
  case True
  have "int c \<le> int (2 ^ 50)" using assms(2) by (simp only: of_nat_le_iff)
  also have "\<dots> < 2 ^ 53" by simp
  finally have "int_to_float (int c) = Inr (Finite (of_nat c))"
    using round_binary64_int [of "int c"] by (simp add: int_to_float_def)
  then have "int_mul_float (int c) (float_div ls c) = Inr (Finite 0)"
    using True by (simp add: int_mul_float_def float_div_def round_binary64_def)
  moreover have "shown_0f 0 = 0" "round2 (Finite 0) = Finite 0"
    by (simp_all add: shown_0f_def rhe_def round_binary64_def)
  ultimately show ?thesis using True by simp
next
  case False
  then have ls: "0 < ls" by simp
  from product_near_sum [OF assms(1,2) ls assms(3)]
  obtain t where t: "int_mul_float (int c) (float_div ls c) = Inr (Finite t)"
      "\<bar>t - of_nat ls\<bar> < of_nat ls / 2 ^ 51"
    by blast
  have l50: "(of_nat ls :: rat) \<le> 2 ^ 50"
  proof -
    have "(of_nat ls :: rat) \<le> of_nat (2 ^ 50)" using assms(3) by (simp only: of_nat_le_iff)
    then show ?thesis by simp
  qed
  then have "(of_nat ls :: rat) / 2 ^ 51 \<le> 1 / 2"
    by (simp add: field_simps)
  with t(2) have near: "\<bar>t - of_int (int ls)\<bar> < 1 / 2"
    by simp
  have s: "shown_0f t = int ls"
    by (rule shown_0f_near [OF near])
  have r: "round2 (Finite t) = Finite (of_nat ls)" if "ls \<le> 2 ^ 43"
  proof -
    have "(of_nat ls :: rat) \<le> of_nat (2 ^ 43)" using that by (simp only: of_nat_le_iff)
    then have "(of_nat ls :: rat) / 2 ^ 51 \<le> 1 / 256"
      by (simp add: field_simps)
    with t(2) have n: "\<bar>t - of_int (int ls)\<bar> < 1 / 200"
      by simp
    have "int ls \<le> int (2 ^ 43)" using that by (simp only: of_nat_le_iff)
    also have "\<dots> < 2 ^ 53" by simp
    finally have "int ls < 2 ^ 53" .
    from round2_near [OF n _ this] show ?thesis by simp
  qed
  from t(1) near s r show ?thesis by auto
qed

section \<open>Properties of the aggregator\<close>

subsection \<open>Adding position arrays\<close>

lemma add_padded_Nil2 [simp]: "add_padded f xs [] = xs"
  by (cases xs) simp_all

lemma add_padded_commute:
  assumes "\<And>x y. f x y = f y x"
  shows "add_padded f xs ys = add_padded f ys xs"
proof (induction xs arbitrary: ys)
  case Nil
  show ?case by simp
next
  case (Cons x xs)
  then show ?case by (cases ys) (simp_all add: assms)
qed

lemma add_padded_assoc:
  assumes "\<And>x y z. f (f x y) z = f x (f y z)"
  shows "add_padded f (add_padded f xs ys) zs = add_padded f xs (add_padded f ys zs)"
proof (induction xs arbitrary: ys zs)
  case Nil
  show ?case by simp
next
  case (Cons x xs)
  show ?case
  proof (cases ys)
    case Nil
    then show ?thesis by simp
  next
    case ys: (Cons y ys')
    show ?thesis
    proof (cases zs)
      case Nil
      then show ?thesis by simp
    next
      case (Cons z zs')
      with ys Cons.IH show ?thesis by (simp add: assms)
    qed
  qed
qed

lemma add_bases_commute: "add_bases f g = add_bases g f"
  by (simp add: add_bases_def add.commute)

lemma add_bases_assoc: "add_bases (add_bases f g) h = add_bases f (add_bases g h)"
  by (simp add: add_bases_def add.assoc)

lemma add_bases_no_bases [simp]: "add_bases no_bases f = f"
  by (simp add: add_bases_def no_bases_def)

lemma add_histograms_commute: "add_histograms g h = add_histograms h g"
  by (rule ext) (simp add: add_histograms_def split: option.splits)

lemma add_histograms_assoc:
  "add_histograms (add_histograms f g) h = add_histograms f (add_histograms g h)"
  by (rule ext) (simp add: add_histograms_def split: option.splits)

lemma add_histograms_empty [simp]:
  "add_histograms Map.empty h = h" "add_histograms h Map.empty = h"
  by (rule ext, simp add: add_histograms_def split: option.splits)+

lemma merge_commute: "merge a b = merge b a"
  by (simp add: merge_def add_padded_commute [of "(+)"] add.commute
      add_padded_commute [of add_bases] add_bases_commute add_histograms_commute)

lemma merge_assoc: "merge (merge a b) c = merge a (merge b c)"
  by (simp add: merge_def add_padded_assoc [of "(+)"] add.assoc
      add_padded_assoc [of add_bases] add_bases_assoc add_histograms_assoc)

lemma merge_empty [simp]: "merge empty_aggregate a = a" "merge a empty_aggregate = a"
  by (simp_all add: merge_def empty_aggregate_def)

lemma add_upto_Nil [simp]: "add_upto f xs [] = xs"
  by (simp add: add_upto_def)

lemma grow_Nil [simp]: "grow z L [] = replicate L z"
  by (simp add: grow_def)

lemma grow_Cons [simp]: "grow z (Suc L) (x # xs) = x # grow z L xs"
  by (simp add: grow_def)

lemma grow_0 [simp]: "grow z 0 xs = xs"
  by (simp add: grow_def)

lemma add_upto_Cons [simp]: "add_upto f (x # xs) (v # vs) = f x v # add_upto f xs vs"
  by (simp add: add_upto_def)

lemma add_upto_replicate:
  assumes "\<And>v. f z v = v"
  shows "add_upto f (replicate (length vs) z) vs = vs"
  by (induction vs) (simp_all add: assms)

lemma add_upto_grow:
  assumes "\<And>v. f z v = v"
  shows "add_upto f (grow z (length vs) xs) vs = add_padded f xs vs"
proof (induction xs arbitrary: vs)
  case Nil
  show ?case by (simp add: add_upto_replicate assms)
next
  case (Cons x xs)
  then show ?case by (cases vs) simp_all
qed

lemma bump_add: "bump h L = add_histograms h (bump Map.empty L)"
  by (rule ext) (simp add: bump_def add_histograms_def split: option.splits)

lemma update_merge:
  assumes "length (quality r) = length (sequence r)"
  shows "update a r = merge a (update empty_aggregate r)"
proof -
  have q: "add_upto (+) (grow 0 (length (sequence r)) xs) (quality r) = add_padded (+) xs (quality r)" for xs :: "nat list"
    using add_upto_grow [of "(+)" 0 "quality r" xs] assms by simp
  have c: "add_upto (+) (grow 0 (length (sequence r)) xs) (replicate (length (sequence r)) 1)
       = add_padded (+) xs (replicate (length (sequence r)) 1)" for xs :: "nat list"
    using add_upto_grow [of "(+)" 0 "replicate (length (sequence r)) 1" xs] by simp
  have b: "add_upto add_bases (grow no_bases (length (sequence r)) xs) (map one_base (sequence r))
       = add_padded add_bases xs (map one_base (sequence r))" for xs
    using add_upto_grow [of add_bases no_bases "map one_base (sequence r)" xs] by simp
  show ?thesis
    unfolding update_def merge_def Let_def q c b
    by (simp add: empty_aggregate_def bump_add [of "length_histogram a"])
qed


lemma aggregate_from_merge:
  assumes "\<forall>r\<in>set rs. well_formed r"
  shows "aggregate_from a rs = merge a (aggregate rs)"
  using assms
proof (induction rs arbitrary: a)
  case Nil
  show ?case by (simp add: aggregate_from_def aggregate_def)
next
  case (Cons r rs)
  have wf: "length (quality r) = length (sequence r)"
    using Cons.prems by (simp add: well_formed_def)
  have rest: "\<forall>r\<in>set rs. well_formed r"
    using Cons.prems by simp
  have "aggregate_from a (r # rs) = aggregate_from (update a r) rs"
    by (simp add: aggregate_from_def)
  also have "\<dots> = merge (update a r) (aggregate rs)"
    by (rule Cons.IH [OF rest])
  also have "\<dots> = merge (merge a (update empty_aggregate r)) (aggregate rs)"
    using update_merge [OF wf, of a] by simp
  also have "\<dots> = merge a (merge (update empty_aggregate r) (aggregate rs))"
    by (rule merge_assoc)
  also have "merge (update empty_aggregate r) (aggregate rs)
      = aggregate_from (update empty_aggregate r) rs"
    by (rule Cons.IH [OF rest, symmetric])
  also have "\<dots> = aggregate (r # rs)"
    by (simp add: aggregate_def aggregate_from_def)
  finally show ?case .
qed

lemma aggregate_Cons:
  assumes "\<forall>r\<in>set (r # rs). well_formed r"
  shows "aggregate (r # rs) = merge (aggregate [r]) (aggregate rs)"
proof -
  have "aggregate (r # rs) = aggregate_from (update empty_aggregate r) rs"
    by (simp add: aggregate_def aggregate_from_def)
  also have "\<dots> = merge (update empty_aggregate r) (aggregate rs)"
    using assms by (intro aggregate_from_merge) simp
  finally show ?thesis
    by (simp add: aggregate_def aggregate_from_def)
qed

lemma aggregate_append:
  assumes "\<forall>r\<in>set (xs @ ys). well_formed r"
  shows "aggregate (xs @ ys) = merge (aggregate xs) (aggregate ys)"
proof -
  have "aggregate (xs @ ys) = aggregate_from (aggregate xs) ys"
    by (simp add: aggregate_def aggregate_from_def)
  also have "\<dots> = merge (aggregate xs) (aggregate ys)"
    using assms by (intro aggregate_from_merge) simp
  finally show ?thesis .
qed

lemma aggregate_mset:
  assumes "mset xs = mset ys" and "\<forall>r\<in>set xs. well_formed r"
  shows "aggregate xs = aggregate ys"
  using assms
proof (induction xs arbitrary: ys)
  case Nil
  then show ?case by simp
next
  case (Cons x xs)
  have "x \<in> set ys"
    using Cons.prems(1) by (metis list.set_intros(1) mset_eq_setD)
  then obtain ys1 ys2 where ys: "ys = ys1 @ x # ys2"
    by (auto dest: split_list)
  have m: "mset xs = mset (ys1 @ ys2)"
    using Cons.prems(1) ys by simp
  have wfx: "\<forall>r\<in>set xs. well_formed r"
    using Cons.prems(2) by simp
  have wfy: "\<forall>r\<in>set ys. well_formed r"
    using Cons.prems mset_eq_setD by blast
  have wf12: "\<forall>r\<in>set (ys1 @ ys2). well_formed r" "\<forall>r\<in>set (x # ys2). well_formed r"
    "\<forall>r\<in>set (ys1 @ x # ys2). well_formed r"
    using wfy ys by auto
  have ih: "aggregate xs = aggregate (ys1 @ ys2)"
    by (rule Cons.IH [OF m wfx])
  have "aggregate ys = merge (aggregate ys1) (aggregate (x # ys2))"
    unfolding ys by (rule aggregate_append [OF wf12(3)])
  also have "\<dots> = merge (aggregate ys1) (merge (aggregate [x]) (aggregate ys2))"
    using aggregate_Cons [OF wf12(2)] by simp
  also have "\<dots> = merge (aggregate [x]) (merge (aggregate ys1) (aggregate ys2))"
    by (metis merge_assoc merge_commute)
  also have "\<dots> = merge (aggregate [x]) (aggregate (ys1 @ ys2))"
    using aggregate_append [OF wf12(1)] by simp
  also have "\<dots> = merge (aggregate [x]) (aggregate xs)"
    by (simp add: ih)
  also have "\<dots> = aggregate (x # xs)"
    using aggregate_Cons [of x xs] Cons.prems(2) by simp
  finally show ?case by simp
qed

lemma run_plan_aggregate:
  assumes "\<forall>r\<in>set (shard_records p). well_formed r"
  shows "run_plan p = aggregate (shard_records p)"
  using assms
proof (induction p)
  case (Shard rs)
  show ?case by simp
next
  case (Merged p q)
  then show ?case by (simp add: aggregate_append ball_Un)
qed

subsection \<open>Counting records\<close>

lemma count_aggregate_from: "count (aggregate_from a rs) = count a + length rs"
  by (induction rs arbitrary: a) (simp_all add: aggregate_from_def update_def Let_def)

lemma histogram_total_bump:
  assumes "finite (dom h)"
  shows "histogram_total (bump h L) = histogram_total h + 1"
proof (cases "h L")
  case None
  then have "L \<notin> dom h" by auto
  then have "(\<Sum>K\<in>dom h. the (bump h L K)) = (\<Sum>K\<in>dom h. the (h K))"
    by (intro sum.cong) (auto simp: bump_def)
  moreover have "dom (bump h L) = insert L (dom h)"
    by (simp add: bump_def)
  ultimately show ?thesis using assms None \<open>L \<notin> dom h\<close>
    by (simp add: histogram_total_def) (simp add: bump_def)
next
  case (Some c)
  then have L: "L \<in> dom h" by auto
  then have d: "dom (bump h L) = dom h" by (auto simp: bump_def)
  have "histogram_total (bump h L) = the (bump h L L) + (\<Sum>K\<in>dom h - {L}. the (bump h L K))"
    unfolding histogram_total_def d using assms L by (simp add: sum.remove)
  also have "(\<Sum>K\<in>dom h - {L}. the (bump h L K)) = (\<Sum>K\<in>dom h - {L}. the (h K))"
    by (rule sum.cong) (simp_all add: bump_def)
  also have "the (bump h L L) = the (h L) + 1" using Some by (simp add: bump_def)
  finally show ?thesis
    unfolding histogram_total_def using assms L by (simp add: sum.remove)
qed

lemma dom_bump: "dom (bump h L) = insert L (dom h)"
  by (simp add: bump_def)

lemma histogram_aggregate_from:
  assumes "finite (dom (length_histogram a))"
  shows "finite (dom (length_histogram (aggregate_from a rs))) \<and>
         histogram_total (length_histogram (aggregate_from a rs))
           = histogram_total (length_histogram a) + length rs"
  using assms
proof (induction rs arbitrary: a)
  case Nil
  then show ?case by (simp add: aggregate_from_def)
next
  case (Cons r rs)
  have f: "finite (dom (length_histogram (update a r)))"
    using Cons.prems by (simp add: update_def Let_def dom_bump)
  have t: "histogram_total (length_histogram (update a r)) = histogram_total (length_histogram a) + 1"
    using Cons.prems by (simp add: update_def Let_def histogram_total_bump)
  from Cons.IH [OF f] t show ?case
    by (simp add: aggregate_from_def)
qed


lemma decode_record_decodable:
  "decodable cfg r \<Longrightarrow> decode_record cfg n r = Inr (decoded cfg r)"
  by (simp add: decodable_def decode_record_def decode_quality_def decoded_def)

lemma pass_from_read_records:
  assumes "read_records cfg n ls = (rs, None)" and "\<forall>r\<in>set rs. decodable cfg r"
  shows "pass_from cfg n ls a = Inr (aggregate_from a (map (decoded cfg) rs))"
  using assms
proof (induction cfg n ls arbitrary: rs a rule: read_records.induct)
  case (1 cfg n)
  then show ?case by (simp add: aggregate_from_def)
next
  case (2 cfg n l1 l2 l3 l4 rest)
  from "2.prems"(1) obtain r rs' where
    p: "parse_group cfg n l1 l2 l3 l4 = Inr r" and
    rr: "read_records cfg (n + 4) rest = (rs', None)" and
    rs: "rs = r # rs'"
    by (auto split: sum.splits prod.splits)
  have d: "decodable cfg r" and ds: "\<forall>r\<in>set rs'. decodable cfg r"
    using "2.prems"(2) rs by simp_all
  have "pass_from cfg (n + 4) rest (update a (decoded cfg r))
      = Inr (aggregate_from (update a (decoded cfg r)) (map (decoded cfg) rs'))"
    by (rule "2.IH" [OF p rr ds])
  then show ?case
    using p rs by (simp add: decode_record_decodable [OF d] aggregate_from_def)
qed simp_all

lemma length_add_upto [simp]: "length (add_upto f xs vs) = length xs"
  by (simp add: add_upto_def)

lemma length_grow [simp]: "length (grow z L xs) = max (length xs) L"
  by (simp add: grow_def)

lemma histogram_bound_aggregate_from:
  assumes "dom (length_histogram a) \<subseteq> {.. length (position_quality_count a)}"
  shows "dom (length_histogram (aggregate_from a rs))
           \<subseteq> {.. length (position_quality_count (aggregate_from a rs))}"
  using assms
proof (induction rs arbitrary: a)
  case Nil
  then show ?case by (simp add: aggregate_from_def)
next
  case (Cons r rs)
  have "dom (length_histogram (update a r)) \<subseteq> {.. length (position_quality_count (update a r))}"
    using Cons.prems by (auto simp: update_def Let_def dom_bump)
  from Cons.IH [OF this] show ?case
    by (simp add: aggregate_from_def)
qed

lemma sum_list_sorted_histogram:
  "sum_list (map snd (concat (map (\<lambda>L. case h L of None \<Rightarrow> [] | Some c \<Rightarrow> [(L, c)]) xs)))
     = sum_list (map (\<lambda>L. case h L of None \<Rightarrow> 0 | Some c \<Rightarrow> c) xs)"
  by (induction xs) (simp_all split: option.splits)

lemma sorted_histogram_total:
  assumes "dom (length_histogram a) \<subseteq> {.. length (position_quality_count a)}"
  shows "sum_list (map snd (sorted_histogram a)) = histogram_total (length_histogram a)"
proof -
  let ?h = "length_histogram a" and ?n = "Suc (length (position_quality_count a))"
  have "sum_list (map snd (sorted_histogram a))
      = (\<Sum>L\<in>{0..<?n}. case ?h L of None \<Rightarrow> 0 | Some c \<Rightarrow> c)"
    by (simp only: sorted_histogram_def sum_list_sorted_histogram
        interv_sum_list_conv_sum_set_nat set_upt)
  also have "\<dots> = (\<Sum>L\<in>dom ?h. case ?h L of None \<Rightarrow> 0 | Some c \<Rightarrow> c)"
    using assms by (intro sum.mono_neutral_right) (auto simp: less_Suc_eq_le split: option.splits)
  also have "\<dots> = histogram_total ?h"
    unfolding histogram_total_def by (intro sum.cong) auto
  finally show ?thesis .
qed

lemma pass_from_append:
  assumes "pass_from cfg n pre a = Inr a'"
  shows "pass_from cfg n (pre @ rest) a = pass_from cfg (n + length pre) rest a'"
  using assms
proof (induction cfg n pre a rule: pass_from.induct)
  case (1 cfg n a)
  then show ?case by simp
next
  case (2 cfg n l1 l2 l3 l4 ls a)
  from "2.prems" obtain raw r where
    p: "parse_group cfg n l1 l2 l3 l4 = Inr raw" and
    d: "decode_record cfg (n + 3) raw = Inr r" and
    rest: "pass_from cfg (n + 4) ls (update a r) = Inr a'"
    by (auto split: sum.splits)
  have n: "n + length (l1 # l2 # l3 # l4 # ls) = n + 4 + length ls"
    by simp
  show ?case
    unfolding n using "2.IH" [OF p d rest] p d by simp
qed simp_all

lemma pass_from_mismatch:
  assumes "4 dvd length pre" and "length l2 \<noteq> length l4"
  shows "\<exists>e. pass_from cfg n (pre @ l1 # l2 # l3 # l4 # post) a = Inl e"
  using assms(1)
proof (induction cfg n pre a rule: pass_from.induct)
  case (1 cfg n a)
  show ?case using assms(2)
    by (simp add: parse_group_def)
next
  case (2 cfg n p1 p2 p3 p4 ls a)
  have "length (p1 # p2 # p3 # p4 # ls) = length ls + 4"
    by simp
  with "2.prems" have "4 dvd length ls"
    by (simp only: dvd_add_triv_right_iff)
  with "2.IH" show ?case
    by (auto split: sum.splits)
qed (simp_all add: numeral_2_eq_2 [symmetric] numeral_3_eq_3 [symmetric])


subsection \<open>The example inputs\<close>

lemma lines_of_unlines_examples:
  "lines_of two_reads = [''@r1'', ''ACGTA'', ''+'', ''IIIII'', ''@r2'', ''ACGTACG'', ''+'', ''IIIIIII'']"
  "lines_of second_read_short = [''@a'', ''AC'', ''+'', ''II'', ''@b'', ''ACG'', ''+'', ''I'']"
  by (simp_all add: lines_of_def two_reads_def second_read_short_def unlines_def newline_def)

lemma record_reader_two_reads:
  "record_reader fastq_config two_reads = ([raw_r1, raw_r2], None)"
  by (simp add: record_reader_def lines_of_unlines_examples parse_group_def fastq_config_def
      raw_r1_def raw_r2_def)

lemma decodable_two_reads: "\<forall>r\<in>set [raw_r1, raw_r2]. decodable fastq_config r"
  by (simp add: decodable_def fastq_config_def raw_r1_def raw_r2_def)

subsection \<open>Two reads of lengths 5 and 7\<close>

lemma read_records_lengths:
  assumes "read_records cfg n ls = (rs, e)"
  shows "\<forall>r\<in>set rs. length (raw_quality r) = length (raw_sequence r)"
  using assms
proof (induction cfg n ls arbitrary: rs e rule: read_records.induct)
  case (2 cfg n l1 l2 l3 l4 rest)
  show ?case
  proof (cases "parse_group cfg n l1 l2 l3 l4")
    case (Inl err)
    with "2.prems" show ?thesis by simp
  next
    case (Inr r)
    obtain rs' e' where rr: "read_records cfg (n + 4) rest = (rs', e')"
      by (cases "read_records cfg (n + 4) rest")
    from Inr have "length (raw_quality r) = length (raw_sequence r)"
      by (auto simp: parse_group_def split: if_splits)
    moreover have "\<forall>r\<in>set rs'. length (raw_quality r) = length (raw_sequence r)"
      by (rule "2.IH" [OF Inr rr])
    moreover have "rs = r # rs'"
      using "2.prems" Inr rr by simp
    ultimately show ?thesis by simp
  qed
qed simp_all

lemma float_div_examples:
  "float_div 12 2 = Finite 6" "float_div 80 2 = Finite 40" "float_div 40 (Suc 0) = Finite 40"
  by code_simp+

lemma upt_7: "[0..<7] = [0, 1, 2, 3, 4, 5, 6]"
  by code_simp

lemma aggregate_5_7:
  assumes "length (sequence r1) = 5" "quality r1 = replicate 5 40"
      and "length (sequence r2) = 7" "quality r2 = replicate 7 40"
  shows "count (aggregate [r1, r2]) = 2"
    and "length_sum (aggregate [r1, r2]) = 12"
    and "position_quality_sum (aggregate [r1, r2]) = [80, 80, 80, 80, 80, 40, 40]"
    and "position_quality_count (aggregate [r1, r2]) = [2, 2, 2, 2, 2, 1, 1]"
    and "length_histogram (aggregate [r1, r2]) = [5 \<mapsto> 1, 7 \<mapsto> 1]"
  using assms
  by (simp_all add: aggregate_def aggregate_from_def update_def Let_def empty_aggregate_def
      bump_def eval_nat_numeral)


lemma compute_5_7:
  assumes "length (sequence r1) = 5" "quality r1 = replicate 5 40"
      and "length (sequence r2) = 7" "quality r2 = replicate 7 40"
  shows "\<exists>m. compute (aggregate [r1, r2]) = Metrics m \<and>
           metrics_count m = 2 \<and> average_length m = Finite 6 \<and> total_bp m = 12 \<and>
           metrics_length_histogram m = [(5, 1), (7, 1)] \<and>
           per_position_mean_quality m =
             [(0, Finite 40), (1, Finite 40), (2, Finite 40), (3, Finite 40), (4, Finite 40),
              (5, Finite 40), (6, Finite 40)]"
proof -
  note a = aggregate_5_7 [OF assms]
  have c: "covered (aggregate [r1, r2]) = [0, 1, 2, 3, 4, 5, 6]"
    by (simp add: covered_def a upt_7)
  have h: "sorted_histogram (aggregate [r1, r2]) = [(5, 1), (7, 1)]"
    by (simp add: sorted_histogram_def a eval_nat_numeral)
  show ?thesis
    by (simp add: compute_def a c h float_div_examples)
qed

lemma decoded_all_40:
  assumes "\<forall>ch\<in>set (raw_quality x). of_char ch = offset cfg + 40"
  shows "decodable cfg x"
    and "quality (decoded cfg x) = replicate (length (raw_quality x)) 40"
  using assms
  by (auto simp: decodable_def decoded_def list_all_iff map_replicate_const [symmetric])

subsection \<open>Float arithmetic at particular values\<close>

lemma int_to_float_0: "int_to_float 0 = Inr (Finite 0)"
  by (simp add: int_to_float_def round_binary64_def)

lemma int_mul_float_0:
  "int_mul_float 0 avg = Inr (case avg of Finite x \<Rightarrow> Finite 0 | _ \<Rightarrow> NaN)"
  by (cases avg) (simp_all add: int_mul_float_def int_to_float_0 round_binary64_def)

lemma round2_0: "round2 (Finite 0) = Finite 0"
  by (simp add: round_binary64_def rhe_def)

lemma seven_reads_total:
  "int_mul_float 7 (float_div 29 7) = Inr (Finite (29 + 1 / 2 ^ 48))"
  by code_simp

lemma seven_reads_round2:
  "round2 (Finite (29 + 1 / 2 ^ 48)) = Finite 29"
  by code_simp

subsection \<open>The finalizer on an empty aggregate\<close>

lemma compute_empty: "compute a = EmptyResult \<longleftrightarrow> count a = 0"
  by (simp add: compute_def)

lemma analyze_empty_stream: "analyze cfg [] = Inr EmptyResult"
  by (simp add: analyze_def run_pass_def lines_of_def compute_def empty_aggregate_def)

section \<open>Properties of the engine\<close>

text \<open>
  C3.  Merging is commutative and associative, and however the records of an input are
  dealt out to shards and the shard aggregates are merged, the aggregate, and so the
  \<^verbatim>\<open>Metrics\<close> computed from it, is the one of the whole input aggregated as a single batch.
\<close>

theorem merge_law:
  "merge a b = merge b a \<and>
   merge (merge a b) c = merge a (merge b c) \<and>
   ((\<forall>r\<in>set xs. well_formed r) \<and> mset (shard_records p) = mset xs \<longrightarrow>
      run_plan p = aggregate xs \<and> compute (run_plan p) = compute (aggregate xs))"
proof (intro conjI impI)
  show "merge a b = merge b a" by (rule merge_commute)
  show "merge (merge a b) c = merge a (merge b c)" by (rule merge_assoc)
  assume h: "(\<forall>r\<in>set xs. well_formed r) \<and> mset (shard_records p) = mset xs"
  then have wf: "\<forall>r\<in>set (shard_records p). well_formed r"
    by (metis mset_eq_setD)
  show eq: "run_plan p = aggregate xs"
    using run_plan_aggregate [OF wf] aggregate_mset [of "shard_records p" xs] h wf by simp
  show "compute (run_plan p) = compute (aggregate xs)"
    by (simp add: eq)
qed


theorem merge_law_witness:
  "well_formed rec_a \<and> well_formed rec_b \<and> well_formed rec_c \<and> well_formed rec_d \<and>
   mset (shard_records (Merged (Shard [rec_c, rec_d]) (Shard [rec_a, rec_b]))) = mset [rec_a, rec_b, rec_c, rec_d] \<and>
   compute (merge (aggregate [rec_c, rec_d]) (aggregate [rec_a, rec_b])) = compute (aggregate [rec_a, rec_b, rec_c, rec_d])"
proof -
  have h: "(\<forall>r\<in>set [rec_a, rec_b, rec_c, rec_d]. well_formed r) \<and>
   mset (shard_records (Merged (Shard [rec_c, rec_d]) (Shard [rec_a, rec_b]))) = mset [rec_a, rec_b, rec_c, rec_d]"
    by (simp add: well_formed_def rec_a_def rec_b_def rec_c_def rec_d_def)
  have "compute (run_plan (Merged (Shard [rec_c, rec_d]) (Shard [rec_a, rec_b])))
      = compute (aggregate [rec_a, rec_b, rec_c, rec_d])"
    using merge_law [of empty_aggregate empty_aggregate empty_aggregate "[rec_a, rec_b, rec_c, rec_d]"
        "Merged (Shard [rec_c, rec_d]) (Shard [rec_a, rec_b])"] h
    by blast
  with h show ?thesis by simp
qed

text \<open>
  C5.  On a well-formed input of \<open>N\<close> records (the reader yields them without a failure and
  every quality character decodes) the pass ends with an aggregate whose count is \<open>N\<close>, and
  the buckets of its length histogram, also as the finalizer lists them, add up to \<open>N\<close>.
\<close>

theorem every_record_counted:
  assumes "record_reader cfg s = (rs, None)" and "\<forall>r\<in>set rs. decodable cfg r"
  shows "\<exists>a. run_pass cfg s = Inr a \<and> count a = length rs \<and>
             histogram_total (length_histogram a) = length rs \<and>
             sum_list (map snd (sorted_histogram a)) = length rs"
proof -
  let ?a = "aggregate (map (decoded cfg) rs)"
  have p: "run_pass cfg s = Inr ?a"
    using assms pass_from_read_records [of cfg 1 "lines_of s" rs empty_aggregate]
    by (simp add: run_pass_def record_reader_def aggregate_def)
  have c: "count ?a = length rs"
    by (simp add: aggregate_def count_aggregate_from empty_aggregate_def)
  have e: "finite (dom (length_histogram empty_aggregate))"
    "dom (length_histogram empty_aggregate) \<subseteq> {.. length (position_quality_count empty_aggregate)}"
    "histogram_total (length_histogram empty_aggregate) = 0"
    by (simp_all add: empty_aggregate_def histogram_total_def)
  have h: "histogram_total (length_histogram ?a) = length rs"
    using histogram_aggregate_from [OF e(1), of "map (decoded cfg) rs"] e(3)
    by (simp add: aggregate_def)
  have b: "dom (length_histogram ?a) \<subseteq> {.. length (position_quality_count ?a)}"
    unfolding aggregate_def by (rule histogram_bound_aggregate_from [OF e(2)])
  show ?thesis
    using p c h sorted_histogram_total [OF b] by simp
qed

theorem every_record_counted_witness:
  "record_reader fastq_config two_reads = ([raw_r1, raw_r2], None) \<and>
   decodable fastq_config raw_r1 \<and> decodable fastq_config raw_r2 \<and>
   (\<exists>a. run_pass fastq_config two_reads = Inr a \<and> count a = 2 \<and>
        histogram_total (length_histogram a) = 2 \<and>
        sum_list (map snd (sorted_histogram a)) = 2)"
  using every_record_counted [OF record_reader_two_reads decodable_two_reads]
    record_reader_two_reads decodable_two_reads
  by (simp add: numeral_2_eq_2)

text \<open>
  C7.  On the empty input stream the record reader yields no record and no error.
\<close>

theorem empty_stream_no_records:
  "record_reader cfg [] = ([], None)"
  by (simp add: record_reader_def lines_of_def)

theorem empty_stream_no_records_witness:
  "record_reader fastq_config [] = ([], None)"
  using empty_stream_no_records [of fastq_config] .

text \<open>
  C6.  An input with a record whose quality line is not as long as its sequence line
  never yields an aggregate, so no \<^verbatim>\<open>Metrics\<close>; and when the pass reaches that record (the
  groups before it pass, and its identifier and separator lines start with their
  sentinels, as those of a record do), it raises a \<^verbatim>\<open>FormatError\<close> carrying the number of
  the mismatched quality line.
\<close>

theorem mismatch_aborts_pass:
  assumes "lines_of s = pre @ l1 # l2 # l3 # l4 # post" and "length l2 \<noteq> length l4"
  shows "(4 dvd length pre \<longrightarrow> (\<exists>e. run_pass cfg s = Inl e \<and> analyze cfg s = Inl e)) \<and>
         (pass_from cfg 1 pre empty_aggregate = Inr a \<and>
          l1 \<noteq> [] \<and> hd l1 = id_sentinel cfg \<and> l3 \<noteq> [] \<and> hd l3 = sep_sentinel cfg \<longrightarrow>
            run_pass cfg s = Inl (FormatError (length pre + 4)) \<and>
            analyze cfg s = Inl (FormatError (length pre + 4)))"
proof (intro conjI impI)
  assume "4 dvd length pre"
  from pass_from_mismatch [OF this assms(2), of cfg 1 l1 l3 post empty_aggregate]
  show "\<exists>e. run_pass cfg s = Inl e \<and> analyze cfg s = Inl e"
    by (auto simp: run_pass_def analyze_def assms(1))
next
  assume h: "pass_from cfg 1 pre empty_aggregate = Inr a \<and>
          l1 \<noteq> [] \<and> hd l1 = id_sentinel cfg \<and> l3 \<noteq> [] \<and> hd l3 = sep_sentinel cfg"
  then have "pass_from cfg 1 (pre @ l1 # l2 # l3 # l4 # post) empty_aggregate
      = pass_from cfg (1 + length pre) (l1 # l2 # l3 # l4 # post) a"
    by (intro pass_from_append) simp
  also have "\<dots> = Inl (FormatError (length pre + 4))"
    using h assms(2) by (simp add: parse_group_def)
  finally show r: "run_pass cfg s = Inl (FormatError (length pre + 4))"
    by (simp add: run_pass_def assms(1))
  then show "analyze cfg s = Inl (FormatError (length pre + 4))"
    by (simp add: analyze_def)
qed

theorem mismatch_aborts_pass_witness:
  "lines_of second_read_short = [''@a'', ''AC'', ''+'', ''II''] @ ''@b'' # ''ACG'' # ''+'' # ''I'' # [] \<and>
   length ''ACG'' \<noteq> length ''I'' \<and>
   analyze fastq_config second_read_short = Inl (FormatError 8)"
proof -
  have l: "lines_of second_read_short = [''@a'', ''AC'', ''+'', ''II''] @ ''@b'' # ''ACG'' # ''+'' # ''I'' # []"
    by (simp add: lines_of_unlines_examples)
  have n: "length ''ACG'' \<noteq> length ''I''"
    by simp
  have p: "pass_from fastq_config 1 [''@a'', ''AC'', ''+'', ''II''] empty_aggregate
      = Inr (update empty_aggregate \<lparr>record_id = ''a'', sequence = ''AC'', quality = [40, 40]\<rparr>)"
    by (simp add: parse_group_def decode_record_def decode_quality_def fastq_config_def)
  from mismatch_aborts_pass [OF l n, of fastq_config] p l n
  show ?thesis
    by (simp add: fastq_config_def)
qed

text \<open>
  C4.  Two reads of lengths 5 and 7 whose quality characters all decode to 40 give
  \<^verbatim>\<open>Metrics\<close> with count 2, average length 6.0, 12 base pairs in total, the histogram
  \<open>[(5, 1), (7, 1)]\<close> and a mean quality of 40.0 at each of the positions 0 to 6.
\<close>

theorem two_reads_scenario:
  assumes "record_reader cfg s = ([x1, x2], None)"
      and "length (raw_sequence x1) = 5" and "length (raw_sequence x2) = 7"
      and "\<forall>ch\<in>set (raw_quality x1 @ raw_quality x2). of_char ch = offset cfg + 40"
  shows "\<exists>m. analyze cfg s = Inr (Metrics m) \<and>
           metrics_count m = 2 \<and> average_length m = Finite 6 \<and> total_bp m = 12 \<and>
           metrics_length_histogram m = [(5, 1), (7, 1)] \<and>
           per_position_mean_quality m =
             [(0, Finite 40), (1, Finite 40), (2, Finite 40), (3, Finite 40), (4, Finite 40),
              (5, Finite 40), (6, Finite 40)]"
proof -
  have q: "\<forall>ch\<in>set (raw_quality x1). of_char ch = offset cfg + 40"
      "\<forall>ch\<in>set (raw_quality x2). of_char ch = offset cfg + 40"
    using assms(4) by simp_all
  have len: "length (raw_quality x1) = 5" "length (raw_quality x2) = 7"
    using read_records_lengths [of cfg 1 "lines_of s" "[x1, x2]" None] assms(1-3)
    by (simp_all add: record_reader_def)
  have d: "\<forall>r\<in>set [x1, x2]. decodable cfg r"
    using decoded_all_40(1) [OF q(1)] decoded_all_40(1) [OF q(2)] by simp
  have p: "run_pass cfg s = Inr (aggregate [decoded cfg x1, decoded cfg x2])"
    using pass_from_read_records [of cfg 1 "lines_of s" "[x1, x2]" empty_aggregate] assms(1) d
    by (simp add: run_pass_def record_reader_def aggregate_def)
  have r: "length (sequence (decoded cfg x1)) = 5" "quality (decoded cfg x1) = replicate 5 40"
      "length (sequence (decoded cfg x2)) = 7" "quality (decoded cfg x2) = replicate 7 40"
    using decoded_all_40(2) [OF q(1)] decoded_all_40(2) [OF q(2)] len assms(2,3)
    by (simp_all add: decoded_def)
  show ?thesis
    using compute_5_7 [OF r] by (simp add: analyze_def p)
qed

theorem two_reads_scenario_witness:
  "record_reader fastq_config two_reads = ([raw_r1, raw_r2], None) \<and>
   length (raw_sequence raw_r1) = 5 \<and> length (raw_sequence raw_r2) = 7 \<and>
   set (raw_quality raw_r1 @ raw_quality raw_r2) = {CHR ''I''} \<and>
   of_char (CHR ''I'') = offset fastq_config + 40 \<and>
   (\<exists>m. analyze fastq_config two_reads = Inr (Metrics m) \<and>
        metrics_count m = 2 \<and> average_length m = Finite 6 \<and> total_bp m = 12 \<and>
        metrics_length_histogram m = [(5, 1), (7, 1)] \<and>
        per_position_mean_quality m =
          [(0, Finite 40), (1, Finite 40), (2, Finite 40), (3, Finite 40), (4, Finite 40),
           (5, Finite 40), (6, Finite 40)])"
proof -
  have a: "length (raw_sequence raw_r1) = 5" "length (raw_sequence raw_r2) = 7"
    by (simp_all add: raw_r1_def raw_r2_def)
  have b: "set (raw_quality raw_r1 @ raw_quality raw_r2) = {CHR ''I''}"
    by (simp add: raw_r1_def raw_r2_def)
  have c: "of_char (CHR ''I'') = offset fastq_config + 40"
    by (simp add: fastq_config_def)
  have d: "\<forall>ch\<in>set (raw_quality raw_r1 @ raw_quality raw_r2). of_char ch = offset fastq_config + 40"
    unfolding b using c by simp
  from two_reads_scenario [OF record_reader_two_reads a d] record_reader_two_reads a b c
  show ?thesis by simp
qed


section \<open>Properties of the front end\<close>

text \<open>
  C9.  Invoked with no subcommand, the program prints the help text and ends with exit
  status 1; \<^verbatim>\<open>FastqReader\<close> is never constructed, so no input file is opened.
\<close>

theorem main_no_command:
  assumes "command a = None"
  shows "main FastqReader a = ([PrintHelp], 1) \<and>
         (\<forall>f. Open_FastqReader f \<notin> set (fst (main FastqReader a)))"
  using assms by (simp add: main_def)

theorem main_no_command_witness:
  "command no_command = None \<and> main no_files no_command = ([PrintHelp], 1)"
  using main_no_command [of no_command no_files]
  by (simp add: no_command_def)

text \<open>
  C10.  The full analysis does not use its output prefix for anything but the last line
  it prints: for any two prefixes the calls into the analyzer are the same
  (\<^verbatim>\<open>generate_all_plots\<close> takes no argument), the run ends the same way, and the traces
  are equal once the closing line naming the prefix is left out, so the three plot file
  names printed are the fixed ones.
\<close>

theorem full_analysis_ignores_prefix:
  "filter is_call (fst (handle_full_analysis FastqReader f p1))
     = filter is_call (fst (handle_full_analysis FastqReader f p2)) \<and>
   snd (handle_full_analysis FastqReader f p1) = snd (handle_full_analysis FastqReader f p2) \<and>
   filter (\<lambda>e. e \<noteq> Print [Lit ''Analysis complete. File prefix: '', Lit p1])
       (fst (handle_full_analysis FastqReader f p1))
     = filter (\<lambda>e. e \<noteq> Print [Lit ''Analysis complete. File prefix: '', Lit p2])
       (fst (handle_full_analysis FastqReader f p2))"
  by (simp add: handle_full_analysis_def Let_def split: sum.splits option.splits)

text \<open>
  C8.  When the input file is not found, no handler catches the \<^verbatim>\<open>FileNotFoundError\<close>:
  each one ends with that very exception, and \<open>main\<close>, their caller, chooses the message
  shown to the user and the exit status.
\<close>

theorem file_not_found_surfaced:
  assumes "FastqReader f = Inl FileNotFoundError"
  shows "snd (handle_stats FastqReader f fmt) = Some FileNotFoundError \<and>
         snd (handle_quality FastqReader f p) = Some FileNotFoundError \<and>
         snd (handle_content FastqReader f out) = Some FileNotFoundError \<and>
         snd (handle_full_analysis FastqReader f p) = Some FileNotFoundError \<and>
         (fastq_file a = f \<and>
          command a \<in> {Some ''stats'', Some ''quality'', Some ''content'', Some ''full-analysis''} \<longrightarrow>
            snd (main FastqReader a) = 1 \<and>
            last (fst (main FastqReader a)) = Print [Lit ''Error: File '', Lit f, Lit '' not found''])"
  using assms
  by (auto simp add: handle_stats_def handle_quality_def handle_content_def
      handle_full_analysis_def main_def Let_def)

theorem file_not_found_surfaced_witness:
  "no_files ''reads.fastq'' = Inl FileNotFoundError \<and>
   snd (handle_stats no_files ''reads.fastq'' ''text'') = Some FileNotFoundError \<and>
   main no_files (stats_command ''reads.fastq'' ''text'')
     = ([Print [Lit ''Analyzing statistics for '', Lit ''reads.fastq'', Lit ''...''],
         Open_FastqReader ''reads.fastq'',
         Print [Lit ''Error: File '', Lit ''reads.fastq'', Lit '' not found'']], 1)"
proof -
  have h: "no_files ''reads.fastq'' = Inl FileNotFoundError"
    by (simp add: no_files_def)
  from file_not_found_surfaced
    [where FastqReader = no_files and f = "''reads.fastq''" and fmt = "''text''"
       and a = "stats_command ''reads.fastq'' ''text''"] h
  show ?thesis
    by (simp add: main_def handle_stats_def stats_command_def)
qed

text \<open>
  C2 (as amended).  \<open>handle_stats\<close> has no empty result.  When the reader counts zero
  sequences, an exception of \<^verbatim>\<open>get_average_length\<close> ends the handler, and \<open>main\<close> prints its
  line for that exception (the file-not-found line for a \<^verbatim>\<open>FileNotFoundError\<close>, the
  processing-error line with the message for any other) and ends with status 1; otherwise
  the ordinary report is printed, its total being \<^verbatim>\<open>0 * avg_len\<close>: zero for a finite
  average, NaN for an infinite one or a NaN, and \<open>main\<close> ends with status 0.
\<close>

theorem stats_of_empty_input:
  assumes "FastqReader f = Inr an" and "get_sequence_count an = Inr 0"
  shows "case get_average_length an of
           Inl e \<Rightarrow>
             handle_stats FastqReader f fmt
               = ([Print [Lit ''Analyzing statistics for '', Lit f, Lit ''...''], Open_FastqReader f],
                  Some e) \<and>
             main FastqReader (stats_command f fmt)
               = ([Print [Lit ''Analyzing statistics for '', Lit f, Lit ''...''], Open_FastqReader f,
                   Print (case e of
                            FileNotFoundError \<Rightarrow> [Lit ''Error: File '', Lit f, Lit '' not found'']
                          | Exception msg \<Rightarrow> [Lit ''Error processing file: '', Lit msg])],
                  1)
         | Inr avg \<Rightarrow>
             snd (handle_stats FastqReader f fmt) = None \<and>
             concat (map reported_totals (fst (handle_stats FastqReader f fmt)))
               = [case avg of Finite x \<Rightarrow> Finite 0 | _ \<Rightarrow> NaN] \<and>
             main FastqReader (stats_command f fmt) = (fst (handle_stats FastqReader f fmt), 0)"
proof (cases "get_average_length an")
  case (Inl e)
  with assms have h: "handle_stats FastqReader f fmt
      = ([Print [Lit ''Analyzing statistics for '', Lit f, Lit ''...''], Open_FastqReader f], Some e)"
    by (simp add: handle_stats_def)
  have "main FastqReader (stats_command f fmt)
      = ([Print [Lit ''Analyzing statistics for '', Lit f, Lit ''...''], Open_FastqReader f,
          Print (case e of
                   FileNotFoundError \<Rightarrow> [Lit ''Error: File '', Lit f, Lit '' not found'']
                 | Exception msg \<Rightarrow> [Lit ''Error processing file: '', Lit msg])],
         1)"
    by (cases e) (simp_all add: main_def stats_command_def h)
  with h Inl show ?thesis
    by simp
next
  case (Inr avg)
  with assms have s: "snd (handle_stats FastqReader f fmt) = None"
    by (cases avg) (simp_all add: handle_stats_def Let_def int_mul_float_0)
  from Inr assms have t: "concat (map reported_totals (fst (handle_stats FastqReader f fmt)))
      = [case avg of Finite x \<Rightarrow> Finite 0 | _ \<Rightarrow> NaN]"
    by (cases avg) (simp_all add: handle_stats_def Let_def int_mul_float_0 round2_0 del: round2.simps(1))
  have "main FastqReader (stats_command f fmt) = (fst (handle_stats FastqReader f fmt), 0)"
    using s by (cases "handle_stats FastqReader f fmt") (simp add: main_def stats_command_def)
  with s t Inr show ?thesis
    by simp
qed


theorem stats_of_empty_input_witness:
  "always (answers (Inr 0) (Inr (Finite 0))) ''empty.fastq'' = Inr (answers (Inr 0) (Inr (Finite 0))) \<and>
   get_sequence_count (answers (Inr 0) (Inr (Finite 0))) = Inr 0 \<and>
   concat (map reported_totals
     (fst (handle_stats (always (answers (Inr 0) (Inr (Finite 0)))) ''empty.fastq'' ''json'')))
     = [Finite 0]"
proof -
  have a: "always (answers (Inr 0) (Inr (Finite 0))) ''empty.fastq'' = Inr (answers (Inr 0) (Inr (Finite 0)))"
    by (simp add: always_def)
  have b: "get_sequence_count (answers (Inr 0) (Inr (Finite 0))) = Inr 0"
    by (simp add: answers_def)
  from stats_of_empty_input
    [where FastqReader = "always (answers (Inr 0) (Inr (Finite 0)))" and f = "''empty.fastq''"
       and an = "answers (Inr 0) (Inr (Finite 0))" and fmt = "''json''"] a b
  show ?thesis
    by (simp add: answers_def)
qed

text \<open>
  C2 as stated fails whatever the reader answers for an empty input: the handler either
  ends with the exception or prints a report whose total is zero.
\<close>

theorem empty_input_has_no_empty_result:
  "handle_stats (always (answers (Inr 0) (Inl (Exception ''division by zero'')))) ''empty.fastq'' ''text''
     = ([Print [Lit ''Analyzing statistics for '', Lit ''empty.fastq'', Lit ''...''],
         Open_FastqReader ''empty.fastq''],
        Some (Exception ''division by zero'')) \<and>
   handle_stats (always (answers (Inr 0) (Inr (Finite 0)))) ''empty.fastq'' ''text''
     = ([Print [Lit ''Analyzing statistics for '', Lit ''empty.fastq'', Lit ''...''],
         Open_FastqReader ''empty.fastq'',
         Print [Lit ''STATISTICS RESULTS:''],
         Print [Lit ''  File: '', Lit ''empty.fastq''],
         Print [Lit ''  Sequence count: '', IntComma 0],
         Print [Lit ''  Average length: '', Float2f (Finite 0), Lit '' bp''],
         Print [Lit ''  Total data volume: '', FloatComma0f (Finite 0), Lit '' bp'']],
        None)"
  by (simp add: handle_stats_def always_def answers_def int_mul_float_0)

text \<open>
  C1 (as amended).  The total reported is the float product \<^verbatim>\<open>count * avg_len\<close>, in the
  statistics (rounded to two decimals in JSON) and in the full analysis; no sum of
  lengths enters it.  When the average is the rounded quotient of a sum of lengths
  \<open>ls \<le> 2\<^sup>5\<^sup>0\<close> by a count \<open>c\<close> with \<open>0 < c \<le> 2\<^sup>5\<^sup>0\<close>, the product is finite and less than
  \<open>1/2\<close> away from \<open>ls\<close>, so the text formats show \<open>ls\<close>; and for \<open>ls \<le> 2\<^sup>4\<^sup>3\<close> the
  two-decimal rounding of JSON is the float \<open>ls\<close>.
\<close>

theorem total_is_count_times_average:
  assumes "FastqReader f = Inr an" and "get_sequence_count an = Inr cnt"
      and "get_average_length an = Inr avg" and "int_mul_float cnt avg = Inr t"
  shows "concat (map reported_totals (fst (handle_stats FastqReader f ''json''))) = [round2 t] \<and>
         concat (map reported_totals (fst (handle_stats FastqReader f ''text''))) = [t] \<and>
         concat (map reported_totals (fst (handle_full_analysis FastqReader f p))) = [t] \<and>
         (0 < c \<and> c \<le> 2 ^ 50 \<and> ls \<le> 2 ^ 50 \<and> cnt = int c \<and> avg = float_div ls c \<longrightarrow>
            (\<exists>x. t = Finite x \<and> \<bar>x - of_nat ls\<bar> < 1 / 2 \<and> shown_0f x = int ls \<and>
                 (ls \<le> 2 ^ 43 \<longrightarrow> round2 t = Finite (of_nat ls))))"
proof -
  have near: "\<exists>x. t = Finite x \<and> \<bar>x - of_nat ls\<bar> < 1 / 2 \<and> shown_0f x = int ls \<and>
                 (ls \<le> 2 ^ 43 \<longrightarrow> round2 t = Finite (of_nat ls))"
    if "0 < c \<and> c \<le> 2 ^ 50 \<and> ls \<le> 2 ^ 50 \<and> cnt = int c \<and> avg = float_div ls c"
  proof -
    from that product_of_quotient [of c ls]
    obtain x where x: "int_mul_float (int c) (float_div ls c) = Inr (Finite x)"
        "\<bar>x - of_nat ls\<bar> < 1 / 2" "shown_0f x = int ls"
        "ls \<le> 2 ^ 43 \<longrightarrow> round2 (Finite x) = Finite (of_nat ls)"
      by blast
    from x(1) that assms(4) have "t = Finite x" by simp
    with x(2-4) show ?thesis by blast
  qed
  have "concat (map reported_totals (fst (handle_stats FastqReader f ''json''))) = [round2 t]"
    using assms by (simp add: handle_stats_def Let_def del: round2.simps)
  moreover have "concat (map reported_totals (fst (handle_stats FastqReader f ''text''))) = [t]"
    using assms by (simp add: handle_stats_def Let_def)
  moreover have "concat (map reported_totals (fst (handle_full_analysis FastqReader f p))) = [t]"
    using assms by (simp add: handle_full_analysis_def Let_def split: option.splits)
  ultimately show ?thesis using near by blast
qed

theorem total_is_count_times_average_witness:
  "always (answers (Inr 7) (Inr (float_div 29 7))) ''reads.fastq''
     = Inr (answers (Inr 7) (Inr (float_div 29 7))) \<and>
   int_mul_float 7 (float_div 29 7) = Inr (Finite (29 + 1 / 2 ^ 48)) \<and>
   concat (map reported_totals
     (fst (handle_stats (always (answers (Inr 7) (Inr (float_div 29 7)))) ''reads.fastq'' ''json'')))
     = [Finite 29] \<and>
   concat (map reported_totals
     (fst (handle_full_analysis (always (answers (Inr 7) (Inr (float_div 29 7)))) ''reads.fastq'' ''out'')))
     = [Finite (29 + 1 / 2 ^ 48)] \<and>
   shown_0f (29 + 1 / 2 ^ 48) = 29"
proof -
  let ?an = "answers (Inr 7) (Inr (float_div 29 7))"
  have a: "always ?an ''reads.fastq'' = Inr ?an"
    by (simp add: always_def)
  have b: "get_sequence_count ?an = Inr 7" "get_average_length ?an = Inr (float_div 29 7)"
    by (simp_all add: answers_def)
  note th = total_is_count_times_average
    [where FastqReader = "always ?an" and f = "''reads.fastq''" and an = ?an
       and cnt = 7 and avg = "float_div 29 7" and t = "Finite (29 + 1 / 2 ^ 48)" and p = "''out''"
       and c = 7 and ls = 29, OF a b seven_reads_total]
  have pre: "0 < (7::nat) \<and> (7::nat) \<le> 2 ^ 50 \<and> (29::nat) \<le> 2 ^ 50 \<and> (7::int) = int 7 \<and>
      float_div 29 7 = float_div 29 7"
    by simp
  from th pre obtain x where x: "Finite (29 + 1 / 2 ^ 48) = Finite x" "shown_0f x = int 29"
    by blast
  from x(1) have "x = 29 + 1 / 2 ^ 48"
    by (simp only: pyfloat.inject)
  with x(2) have s: "shown_0f (29 + 1 / 2 ^ 48) = 29"
    by simp
  from th have j: "concat (map reported_totals (fst (handle_stats (always ?an) ''reads.fastq'' ''json'')))
      = [round2 (Finite (29 + 1 / 2 ^ 48))]"
    by blast
  from th have t: "concat (map reported_totals (fst (handle_full_analysis (always ?an) ''reads.fastq'' ''out'')))
      = [Finite (29 + 1 / 2 ^ 48)]"
    by blast
  show ?thesis
    using a seven_reads_total j [unfolded seven_reads_round2] t s by blast
qed

text \<open>
  C1 as stated fails: for seven reads with 29 bases in all the reader answers 7 and
  \<open>29 / 7\<close>, and the total handed to the report is \<open>29 + 2\<^sup>-\<^sup>4\<^sup>8\<close>, not 29.
\<close>

theorem total_not_length_sum:
  "handle_stats (always (answers (Inr 7) (Inr (float_div 29 7)))) ''reads.fastq'' ''text''
     = ([Print [Lit ''Analyzing statistics for '', Lit ''reads.fastq'', Lit ''...''],
         Open_FastqReader ''reads.fastq'',
         Print [Lit ''STATISTICS RESULTS:''],
         Print [Lit ''  File: '', Lit ''reads.fastq''],
         Print [Lit ''  Sequence count: '', IntComma 7],
         Print [Lit ''  Average length: '', Float2f (float_div 29 7), Lit '' bp''],
         Print [Lit ''  Total data volume: '', FloatComma0f (Finite (29 + 1 / 2 ^ 48)), Lit '' bp'']],
        None) \<and>
   Finite (29 + 1 / 2 ^ 48) \<noteq> Finite 29"
  by (simp add: handle_stats_def always_def answers_def seven_reads_total)


end
